theory Spec2Isabelle
  imports Main
begin

section \<open>Text: Python string operations used by the parser\<close>

text \<open>
  Text is a HOL \<open>string\<close>; a \<open>char\<close> is read as the code point of the same number
  (0 to 255).  \<open>is_space\<close> is \<^verbatim>\<open>str.isspace\<close> on that range, which is also what
  \<^verbatim>\<open>\s\<close> matches in a \<^verbatim>\<open>str\<close> pattern and what \<^verbatim>\<open>str.strip()\<close> and
  \<^verbatim>\<open>str.split(None)\<close> treat as white space.
\<close>

definition is_space :: "char \<Rightarrow> bool" where
  "is_space c = (of_char c \<in> {9, 10, 11, 12, 13, 28, 29, 30, 31, 32, 133, 160 :: nat})"

text \<open>\<^verbatim>\<open>s.strip()\<close> and \<^verbatim>\<open>s.strip(chars)\<close>: drop the characters at both ends.\<close>

definition strip_with :: "(char \<Rightarrow> bool) \<Rightarrow> string \<Rightarrow> string" where
  "strip_with p s = rev (dropWhile p (rev (dropWhile p s)))"

definition strip :: "string \<Rightarrow> string" where
  "strip s = strip_with is_space s"

text \<open>The quoting characters of \<^verbatim>\<open>.strip('`"[]')\<close>: backtick, double quote, brackets.\<close>

definition quote_chars :: "char set" where
  "quote_chars = {CHR 0x60, CHR 0x22, CHR ''['', CHR '']''}"

definition strip_quotes :: "string \<Rightarrow> string" where
  "strip_quotes s = strip_with (\<lambda>c. c \<in> quote_chars) s"

text \<open>
  \<^verbatim>\<open>str.upper()\<close>.  The upper case of a text need not lie within the code points 0 to
  255, nor have the length of the text: U+00B5 becomes U+039C, U+00FF becomes U+0178 and
  U+00DF becomes \<^verbatim>\<open>SS\<close>.  So the result is the list of its code points; \<open>codes\<close> is the
  list of the code points of a text.
\<close>

definition codes :: "string \<Rightarrow> nat list" where
  "codes s = map of_char s"

definition upper_char :: "char \<Rightarrow> nat list" where
  "upper_char c =
     (let n = (of_char c :: nat) in
      if 97 \<le> n \<and> n \<le> 122 then [n - 32]
      else if n = 181 then [924]
      else if n = 223 then [83, 83]
      else if 224 \<le> n \<and> n \<le> 254 \<and> n \<noteq> 247 then [n - 32]
      else if n = 255 then [376]
      else [n])"

definition upper :: "string \<Rightarrow> nat list" where
  "upper s = concat (map upper_char s)"

text \<open>
  The case folding of \<^verbatim>\<open>re.IGNORECASE\<close>.  The letters of the patterns are the letters A
  to Z; among the code points 0 to 255 such a letter matches itself in either case and
  nothing else.
\<close>

definition fold_char :: "char \<Rightarrow> char" where
  "fold_char c =
     (let n = (of_char c :: nat) in if 97 \<le> n \<and> n \<le> 122 then char_of (n - 32) else c)"

definition fold_case :: "string \<Rightarrow> string" where
  "fold_case s = map fold_char s"

definition is_letter :: "char \<Rightarrow> bool" where
  "is_letter c = (let n = (of_char (fold_char c) :: nat) in 65 \<le> n \<and> n \<le> 90)"

text \<open>\<^verbatim>\<open>s.split(',')\<close>: every comma separates; the result is never empty.\<close>

fun split_on :: "char \<Rightarrow> string \<Rightarrow> string list" where
  "split_on sep [] = [[]]"
| "split_on sep (c # cs) =
     (if c = sep then [] # split_on sep cs
      else (case split_on sep cs of p # ps \<Rightarrow> (c # p) # ps | [] \<Rightarrow> [[c]]))"

text \<open>
  \<^verbatim>\<open>s.split(None, maxsplit)\<close>: runs of white space separate, leading white space is
  skipped, and after \<open>maxsplit\<close> splits the rest of the text (without its leading white
  space, with its trailing white space) is the last piece, if it is not empty.
\<close>

function split_ws :: "nat \<Rightarrow> string \<Rightarrow> string list" where
  "split_ws n s =
     (let t = dropWhile is_space s in
      if t = [] then []
      else (case n of
              0 \<Rightarrow> [t]
            | Suc m \<Rightarrow> takeWhile (\<lambda>c. \<not> is_space c) t
                        # split_ws m (dropWhile (\<lambda>c. \<not> is_space c) t)))"
  by pat_completeness auto
termination
  by (relation "measure (\<lambda>(n, s). n)") auto

declare split_ws.simps [simp del]

text \<open>\<^verbatim>\<open>sep.join(xs)\<close>.\<close>

fun join :: "string \<Rightarrow> string list \<Rightarrow> string" where
  "join sep [] = []"
| "join sep [x] = x"
| "join sep (x # y # ys) = x @ sep @ join sep (y # ys)"

section \<open>Regular expressions: the fragment of Python's \<^verbatim>\<open>re\<close> the parser uses\<close>

text \<open>
  The patterns of the parser are built from literal text, one character of a class, a
  greedy \<^verbatim>\<open>*\<close> or \<^verbatim>\<open>+\<close> over one character of a class, concatenation, a numbered group
  and a greedy \<^verbatim>\<open>?\<close>.  \<open>Lit ci w\<close> is the literal \<open>w\<close>, compared without case when
  \<open>ci\<close> is set (\<^verbatim>\<open>re.IGNORECASE\<close>).
\<close>

datatype rx =
    Lit bool string
  | Chr "char \<Rightarrow> bool"
  | Star "char \<Rightarrow> bool"
  | Plus "char \<Rightarrow> bool"
  | Cat rx rx
  | Grp nat rx
  | Opt rx

type_synonym groups = "nat \<rightharpoonup> string"

definition lit_matches :: "bool \<Rightarrow> string \<Rightarrow> string \<Rightarrow> bool" where
  "lit_matches ci w s =
     (length w \<le> length s \<and>
      (if ci then fold_case (take (length w) s) = fold_case w else take (length w) s = w))"

text \<open>
  \<open>runs r (g, s)\<close> lists every way of matching \<open>r\<close> at the start of \<open>s\<close>, as the
  groups set so far and the text left over, in the order in which a backtracking matcher
  tries them: a greedy repetition takes as many characters as it can first and gives them
  back one at a time.  The first entry is the match Python reports.
\<close>

fun runs :: "rx \<Rightarrow> groups \<times> string \<Rightarrow> (groups \<times> string) list" where
  "runs (Lit ci w) (g, s) = (if lit_matches ci w s then [(g, drop (length w) s)] else [])"
| "runs (Chr p) (g, s) = (case s of [] \<Rightarrow> [] | c # cs \<Rightarrow> if p c then [(g, cs)] else [])"
| "runs (Star p) (g, s) =
     map (\<lambda>k. (g, drop k s)) (rev [0 ..< Suc (length (takeWhile p s))])"
| "runs (Plus p) (g, s) =
     map (\<lambda>k. (g, drop k s)) (rev [1 ..< Suc (length (takeWhile p s))])"
| "runs (Cat a b) st = concat (map (runs b) (runs a st))"
| "runs (Grp n r) (g, s) =
     map (\<lambda>(g', s'). (g'(n \<mapsto> take (length s - length s') s), s')) (runs r (g, s))"
| "runs (Opt r) st = runs r st @ [st]"

text \<open>
  \<^verbatim>\<open>re.match\<close>: the first run at the start of the text.  The result maps a group number
  to its text, group 0 being the whole match.
\<close>

definition re_match :: "rx \<Rightarrow> string \<Rightarrow> groups option" where
  "re_match r s =
     (case runs r (Map.empty, s) of
        [] \<Rightarrow> None
      | (g, s') # _ \<Rightarrow> Some (g(0 \<mapsto> take (length s - length s') s)))"

text \<open>\<^verbatim>\<open>re.search\<close>: the match at the first position of the text that has one.\<close>

fun re_search :: "rx \<Rightarrow> string \<Rightarrow> groups option" where
  "re_search r [] = re_match r []"
| "re_search r (c # cs) =
     (case re_match r (c # cs) of Some m \<Rightarrow> Some m | None \<Rightarrow> re_search r cs)"

text \<open>
  \<^verbatim>\<open>re.sub(pattern, '', s)\<close>: every match, found from left to right without overlap, is
  removed.  The patterns given to it here match at least one character.
\<close>

function re_sub :: "rx \<Rightarrow> string \<Rightarrow> string" where
  "re_sub r s =
     (case runs r (Map.empty, s) of
        (g, s') # _ \<Rightarrow>
          if length s' < length s then re_sub r s'
          else (case s of [] \<Rightarrow> [] | c # cs \<Rightarrow> c # re_sub r cs)
      | [] \<Rightarrow> (case s of [] \<Rightarrow> [] | c # cs \<Rightarrow> c # re_sub r cs))"
  by pat_completeness auto
termination
  by (relation "measure (\<lambda>(r, s). length s)") auto

declare re_sub.simps [simp del]

text \<open>\<^verbatim>\<open>rx1 rx2 ... rxn\<close> written one after the other.\<close>

fun cat :: "rx list \<Rightarrow> rx" where
  "cat [] = Lit False []"
| "cat [r] = r"
| "cat (r # rs) = Cat r (cat rs)"

text \<open>The patterns of \<^verbatim>\<open>sql_parser.py\<close>, in the order of the source.\<close>

definition rx_paren :: rx where
  \<comment> \<open>\<^verbatim>\<open>\((.*)\)\<close> with \<^verbatim>\<open>re.DOTALL\<close>\<close>
  "rx_paren = cat [Chr (\<lambda>c. c = CHR ''(''), Grp 1 (Star (\<lambda>c. True)), Chr (\<lambda>c. c = CHR '')'')]"

definition rx_primary_key :: rx where
  \<comment> \<open>\<^verbatim>\<open>PRIMARY\s+KEY\<close> with \<^verbatim>\<open>re.IGNORECASE\<close>\<close>
  "rx_primary_key = cat [Lit True ''PRIMARY'', Plus is_space, Lit True ''KEY'']"

definition rx_primary_key_cols :: rx where
  \<comment> \<open>\<^verbatim>\<open>PRIMARY\s+KEY\s*\(([^)]+)\)\<close> with \<^verbatim>\<open>re.IGNORECASE\<close>\<close>
  "rx_primary_key_cols =
     cat [Lit True ''PRIMARY'', Plus is_space, Lit True ''KEY'', Star is_space,
          Chr (\<lambda>c. c = CHR ''(''), Grp 1 (Plus (\<lambda>c. c \<noteq> CHR '')'')), Chr (\<lambda>c. c = CHR '')'')]"

definition rx_foreign_key :: rx where
  \<comment> \<open>\<^verbatim>\<open>FOREIGN\s+KEY\<close> with \<^verbatim>\<open>re.IGNORECASE\<close>\<close>
  "rx_foreign_key = cat [Lit True ''FOREIGN'', Plus is_space, Lit True ''KEY'']"

definition rx_constraint :: rx where
  \<comment> \<open>\<^verbatim>\<open>CONSTRAINT\<close> with \<^verbatim>\<open>re.IGNORECASE\<close>\<close>
  "rx_constraint = Lit True ''CONSTRAINT''"

definition rx_type :: rx where
  \<comment> \<open>\<^verbatim>\<open>([A-Z]+)(\([^)]+\))?\<close> with \<^verbatim>\<open>re.IGNORECASE\<close>\<close>
  "rx_type =
     cat [Grp 1 (Plus is_letter),
          Opt (Grp 2 (cat [Chr (\<lambda>c. c = CHR ''(''), Plus (\<lambda>c. c \<noteq> CHR '')''),
                           Chr (\<lambda>c. c = CHR '')'')]))]"

definition rx_constraint_name :: rx where
  \<comment> \<open>\<^verbatim>\<open>CONSTRAINT\s+([^\s]+)\<close> with \<^verbatim>\<open>re.IGNORECASE\<close>\<close>
  "rx_constraint_name =
     cat [Lit True ''CONSTRAINT'', Plus is_space, Grp 1 (Plus (\<lambda>c. \<not> is_space c))]"

definition rx_foreign_key_cols :: rx where
  \<comment> \<open>\<^verbatim>\<open>FOREIGN\s+KEY\s*\(([^)]+)\)\<close> with \<^verbatim>\<open>re.IGNORECASE\<close>\<close>
  "rx_foreign_key_cols =
     cat [Lit True ''FOREIGN'', Plus is_space, Lit True ''KEY'', Star is_space,
          Chr (\<lambda>c. c = CHR ''(''), Grp 1 (Plus (\<lambda>c. c \<noteq> CHR '')'')), Chr (\<lambda>c. c = CHR '')'')]"

definition rx_references :: rx where
  \<comment> \<open>\<^verbatim>\<open>REFERENCES\s+([^\s(]+)\s*\(([^)]+)\)\<close> with \<^verbatim>\<open>re.IGNORECASE\<close>\<close>
  "rx_references =
     cat [Lit True ''REFERENCES'', Plus is_space,
          Grp 1 (Plus (\<lambda>c. \<not> is_space c \<and> c \<noteq> CHR ''('')), Star is_space,
          Chr (\<lambda>c. c = CHR ''(''), Grp 2 (Plus (\<lambda>c. c \<noteq> CHR '')'')), Chr (\<lambda>c. c = CHR '')'')]"

section \<open>The parser: \<^verbatim>\<open>sql_parser.py\<close>\<close>

subsection \<open>\<^verbatim>\<open>_split_by_comma\<close>\<close>

text \<open>
  The loop over the characters, with its three variables: the parts finished so far, the
  characters of the part being read, and the depth, a Python integer that may go below 0.
\<close>

fun split_loop :: "string list \<Rightarrow> string \<Rightarrow> int \<Rightarrow> string \<Rightarrow> string list \<times> string \<times> int" where
  "split_loop parts current paren_depth [] = (parts, current, paren_depth)"
| "split_loop parts current paren_depth (char # text) =
     (if char = CHR ''('' then split_loop parts (current @ [char]) (paren_depth + 1) text
      else if char = CHR '')'' then split_loop parts (current @ [char]) (paren_depth - 1) text
      else if char = CHR '','' \<and> paren_depth = 0 then split_loop (parts @ [current]) [] paren_depth text
      else split_loop parts (current @ [char]) paren_depth text)"

definition split_by_comma :: "string \<Rightarrow> string list" where
  "split_by_comma text =
     (case split_loop [] [] 0 text of
        (parts, current, paren_depth) \<Rightarrow> if current \<noteq> [] then parts @ [current] else parts)"

subsection \<open>\<^verbatim>\<open>_parse_column_definition\<close>\<close>

text \<open>
  The dictionaries the parser returns have fixed keys; they are records here, and
  \<open>None\<close> is Python's \<^verbatim>\<open>None\<close>.  The type of a column is the result of
  \<^verbatim>\<open>upper()\<close>, a list of code points.
\<close>

record col_def =
  col_name :: string
  col_type :: "nat list"
  constraints :: "string option"
  is_primary_key :: bool

text \<open>
  \<^verbatim>\<open>m.group(n)\<close>.  Every group the parser reads lies on the only path through its
  pattern, so it is set in each match.
\<close>

definition group :: "groups \<Rightarrow> nat \<Rightarrow> string" where
  "group m n = (case m n of Some t \<Rightarrow> t | None \<Rightarrow> [])"

definition parse_column_definition :: "string \<Rightarrow> col_def option" where
  "parse_column_definition cd =
     (let parts = split_ws 2 cd in
      if length parts < 2 then None
      else
        let name = strip_quotes (parts ! 0);
            ty = (case re_match rx_type (parts ! 1) of
                    Some type_match \<Rightarrow> upper (group type_match 0)
                  | None \<Rightarrow> upper (parts ! 1));
            constraints_str = (if length parts > 2 then strip (parts ! 2) else []);
            is_pk = (length parts > 2 \<and> re_search rx_primary_key constraints_str \<noteq> None);
            constraints_str = (if is_pk then strip (re_sub rx_primary_key constraints_str)
                               else constraints_str)
        in Some \<lparr>col_name = name, col_type = ty,
                  constraints = (if constraints_str \<noteq> [] then Some constraints_str else None),
                  is_primary_key = is_pk\<rparr>)"

subsection \<open>\<^verbatim>\<open>_parse_foreign_key\<close>\<close>

record fk_def =
  fk_name :: string
  fk_columns :: "string list"
  ref_table :: string
  ref_columns :: "string list"

text \<open>\<^verbatim>\<open>[col.strip().strip('`"[]') for col in text.split(',')]\<close>\<close>

definition column_list :: "string \<Rightarrow> string list" where
  "column_list text = map (\<lambda>col. strip_quotes (strip col)) (split_on CHR '','' text)"

definition parse_foreign_key :: "string \<Rightarrow> fk_def option" where
  "parse_foreign_key fd =
     (let name_match = re_search rx_constraint_name fd;
          name = (case name_match of Some m \<Rightarrow> Some (strip_quotes (group m 1)) | None \<Rightarrow> None)
      in case re_search rx_foreign_key_cols fd of
           None \<Rightarrow> None
         | Some fk_cols_match \<Rightarrow>
             let cols = column_list (group fk_cols_match 1)
             in (case re_search rx_references fd of
                   None \<Rightarrow> None
                 | Some ref_match \<Rightarrow>
                     let rt = strip_quotes (group ref_match 1);
                         rcols = column_list (group ref_match 2);
                         name = (case name of
                                   Some n \<Rightarrow> if n \<noteq> [] then n
                                             else ''fk_'' @ rt @ ''_'' @ join ''_'' cols
                                 | None \<Rightarrow> ''fk_'' @ rt @ ''_'' @ join ''_'' cols)
                     in Some \<lparr>fk_name = name, fk_columns = cols,
                               ref_table = rt, ref_columns = rcols\<rparr>))"

subsection \<open>\<^verbatim>\<open>_parse_create_table\<close>\<close>

text \<open>
  The statement comes from the tokenizer \<^verbatim>\<open>sqlparse\<close>, which is not part of the
  repository.  What the parser reads of it is the flat list of its tokens, each with a
  token type, its text and the flag \<^verbatim>\<open>is_whitespace\<close>; \<^verbatim>\<open>str(stmt)\<close> is the texts
  of the tokens one after the other.  The token types are compared by identity, so only
  \<^verbatim>\<open>DDL\<close>, \<^verbatim>\<open>Keyword\<close> and \<^verbatim>\<open>Name\<close> themselves are told apart.
\<close>

datatype ttype = DDL | Keyword | Name | Other

record token =
  ttype :: ttype
  val :: string
  is_whitespace :: bool

type_synonym statement = "token list"

definition stmt_str :: "statement \<Rightarrow> string" where
  "stmt_str stmt = concat (map val stmt)"

text \<open>The loop that finds the table name; \<open>in_table_name\<close> is its flag.\<close>

fun find_table_name :: "bool \<Rightarrow> token list \<Rightarrow> string option" where
  "find_table_name in_table_name [] = None"
| "find_table_name in_table_name (t # ts) =
     (if ttype t = DDL \<and> upper (val t) = codes ''CREATE'' then find_table_name in_table_name ts
      else if ttype t = Keyword \<and> upper (val t) = codes ''TABLE'' then find_table_name True ts
      else if in_table_name \<and> ttype t = Name \<and> \<not> is_whitespace t
        then Some (strip_quotes (val t))
      else find_table_name in_table_name ts)"

text \<open>
  The three lists the clause loop fills, and one turn of the loop over the parts of the
  table body.
\<close>

record clauses =
  columns :: "col_def list"
  primary_key :: "string list"
  foreign_keys :: "fk_def list"

definition parse_part :: "clauses \<Rightarrow> string \<Rightarrow> clauses" where
  "parse_part acc part0 =
     (let part = strip part0 in
      if re_match rx_primary_key part \<noteq> None then
        (case re_search rx_primary_key_cols part of
           Some pk_match \<Rightarrow>
             acc\<lparr>primary_key := primary_key acc @ column_list (group pk_match 1)\<rparr>
         | None \<Rightarrow> acc)
      else if re_match rx_foreign_key part \<noteq> None then
        (case parse_foreign_key part of
           Some fk \<Rightarrow> acc\<lparr>foreign_keys := foreign_keys acc @ [fk]\<rparr>
         | None \<Rightarrow> acc)
      else if re_match rx_constraint part \<noteq> None then
        (case parse_foreign_key part of
           Some fk \<Rightarrow> acc\<lparr>foreign_keys := foreign_keys acc @ [fk]\<rparr>
         | None \<Rightarrow> acc)
      else
        (case parse_column_definition part of
           Some cd \<Rightarrow>
             if is_primary_key cd
             then acc\<lparr>columns := columns acc @ [cd],
                      primary_key := primary_key acc @ [col_name cd]\<rparr>
             else acc\<lparr>columns := columns acc @ [cd]\<rparr>
         | None \<Rightarrow> acc))"

definition no_clauses :: clauses where
  "no_clauses = \<lparr>columns = [], primary_key = [], foreign_keys = []\<rparr>"

text \<open>The text between the parentheses, when the pattern finds one.\<close>

definition table_body :: "string \<Rightarrow> string option" where
  "table_body text =
     (case re_search rx_paren text of Some paren_match \<Rightarrow> Some (group paren_match 1)
      | None \<Rightarrow> None)"

definition parse_body :: "string \<Rightarrow> clauses" where
  "parse_body text =
     (case table_body text of
        Some definitions \<Rightarrow> foldl parse_part no_clauses (split_by_comma definitions)
      | None \<Rightarrow> no_clauses)"

text \<open>The dictionary returned for a table: the three lists and the name.\<close>

record table_def = clauses +
  tbl_name :: string

definition parse_create_table :: "statement \<Rightarrow> table_def option" where
  "parse_create_table stmt =
     (let name = find_table_name False stmt;
          cl = parse_body (stmt_str stmt)
      in case name of
           None \<Rightarrow> None
         | Some n \<Rightarrow> if n = [] then None else Some \<lparr>columns = columns cl, primary_key = primary_key cl,
                                                  foreign_keys = foreign_keys cl, tbl_name = n\<rparr>)"

subsection \<open>\<^verbatim>\<open>parse_sql_string\<close>\<close>

text \<open>
  \<^verbatim>\<open>sqlparse.parse\<close> hands over the statements; \<^verbatim>\<open>get_type()\<close> is a text such as
  \<^verbatim>\<open>CREATE\<close>.  Statements of another type and statements without a table are left out.
\<close>

record stmt =
  get_type :: string
  tokens :: statement

definition parse_statements :: "stmt list \<Rightarrow> table_def list" where
  "parse_statements statements =
     concat (map (\<lambda>st. if get_type st = ''CREATE''
                         then (case parse_create_table (tokens st) of
                                 Some table_def \<Rightarrow> [table_def] | None \<Rightarrow> [])
                         else []) statements)"

section \<open>Python values\<close>

text \<open>
  The validator and the AST builder take dictionaries of any content.  A value is one of
  the kinds a YAML or JSON document holds; a dictionary is the list of its items in
  insertion order (keys are texts, each key once), read with \<open>map_of\<close>.
\<close>

datatype pyval =
    PNone
  | PBool bool
  | PInt int
  | PStr string
  | PList "pyval list"
  | PDict "(string \<times> pyval) list"

datatype error =
    SchemaValidationError string
  | KeyError pyval
  | TypeError
  | AttributeError

definition and_then :: "error + 'a \<Rightarrow> ('a \<Rightarrow> error + 'b) \<Rightarrow> error + 'b" where
  "and_then m f = (case m of Inl e \<Rightarrow> Inl e | Inr x \<Rightarrow> f x)"

text \<open>A loop body run on each element in turn; the first error ends the loop.\<close>

fun for_each :: "('a \<Rightarrow> error + 'b) \<Rightarrow> 'a list \<Rightarrow> error + 'b list" where
  "for_each f [] = Inr []"
| "for_each f (x # xs) =
     (case f x of Inl e \<Rightarrow> Inl e
      | Inr y \<Rightarrow> (case for_each f xs of Inl e \<Rightarrow> Inl e | Inr ys \<Rightarrow> Inr (y # ys)))"

text \<open>\<^verbatim>\<open>obj[key]\<close> for a text key: only a dictionary can be read that way.\<close>

definition subscript :: "pyval \<Rightarrow> string \<Rightarrow> error + pyval" where
  "subscript obj key =
     (case obj of
        PDict d \<Rightarrow> (case map_of d key of Some v \<Rightarrow> Inr v | None \<Rightarrow> Inl (KeyError (PStr key)))
      | _ \<Rightarrow> Inl TypeError)"

text \<open>\<^verbatim>\<open>obj.get(key, default)\<close>: only a dictionary has the method.\<close>

definition py_get :: "pyval \<Rightarrow> string \<Rightarrow> pyval \<Rightarrow> error + pyval" where
  "py_get obj key dflt =
     (case obj of
        PDict d \<Rightarrow> (case map_of d key of Some v \<Rightarrow> Inr v | None \<Rightarrow> Inr dflt)
      | _ \<Rightarrow> Inl AttributeError)"

text \<open>
  \<^verbatim>\<open>for x in obj\<close>: a list gives its elements, a dictionary its keys, a text its
  characters; nothing else can be iterated.
\<close>

definition iterate :: "pyval \<Rightarrow> error + pyval list" where
  "iterate obj =
     (case obj of
        PList xs \<Rightarrow> Inr xs
      | PDict d \<Rightarrow> Inr (map (\<lambda>(k, v). PStr k) d)
      | PStr t \<Rightarrow> Inr (map (\<lambda>c. PStr [c]) t)
      | _ \<Rightarrow> Inl TypeError)"

text \<open>
  \<^verbatim>\<open>x in names\<close> for a set: a list or a dictionary cannot be hashed.  The sets of the
  validator hold validated names only, which are texts, and a text is equal to no value of
  another kind, so equality of values is Python's \<^verbatim>\<open>==\<close> there.
\<close>

definition hashable :: "pyval \<Rightarrow> bool" where
  "hashable v = (case v of PList _ \<Rightarrow> False | PDict _ \<Rightarrow> False | _ \<Rightarrow> True)"

definition element_of :: "pyval \<Rightarrow> pyval set \<Rightarrow> error + bool" where
  "element_of x names = (if hashable x then Inr (x \<in> names) else Inl TypeError)"

subsection \<open>Formatting a value in a message\<close>

definition sq :: string where
  "sq = [CHR 0x27]"

definition quoted :: "string \<Rightarrow> string" where
  "quoted t = sq @ t @ sq"

fun show_nat :: "nat \<Rightarrow> string" where
  "show_nat n = (if n < 10 then [char_of (48 + n)]
                 else show_nat (n div 10) @ [char_of (48 + n mod 10)])"

declare show_nat.simps [simp del]

definition show_int :: "int \<Rightarrow> string" where
  "show_int i = (if i < 0 then CHR ''-'' # show_nat (nat (- i)) else show_nat (nat i))"

definition hex_digit :: "nat \<Rightarrow> char" where
  "hex_digit n = (if n < 10 then char_of (48 + n) else char_of (87 + n))"

definition printable :: "char \<Rightarrow> bool" where
  "printable c = (let n = (of_char c :: nat) in (32 \<le> n \<and> n \<le> 126) \<or> (161 \<le> n \<and> n \<noteq> 173))"

text \<open>\<^verbatim>\<open>repr\<close> of a text: the quote is chosen from the content, the rest is escaped.\<close>

definition repr_char :: "char \<Rightarrow> char \<Rightarrow> string" where
  "repr_char quote c =
     (if c = quote \<or> c = CHR 0x5C then [CHR 0x5C, c]
      else if c = CHR 0x09 then [CHR 0x5C, CHR ''t'']
      else if c = CHR 0x0A then [CHR 0x5C, CHR ''n'']
      else if c = CHR 0x0D then [CHR 0x5C, CHR ''r'']
      else if printable c then [c]
      else [CHR 0x5C, CHR ''x'', hex_digit (of_char c div 16), hex_digit (of_char c mod 16)])"

definition repr_str :: "string \<Rightarrow> string" where
  "repr_str t =
     (let quote = (if CHR 0x27 \<in> set t \<and> CHR 0x22 \<notin> set t then CHR 0x22 else CHR 0x27)
      in [quote] @ concat (map (repr_char quote) t) @ [quote])"

fun py_repr :: "pyval \<Rightarrow> string" where
  "py_repr PNone = ''None''"
| "py_repr (PBool b) = (if b then ''True'' else ''False'')"
| "py_repr (PInt i) = show_int i"
| "py_repr (PStr t) = repr_str t"
| "py_repr (PList xs) = ''['' @ join '', '' (map py_repr xs) @ '']''"
| "py_repr (PDict d) =
     ''{'' @ join '', '' (map (\<lambda>(k, v). repr_str k @ '': '' @ py_repr v) d) @ ''}''"

text \<open>\<^verbatim>\<open>str(v)\<close>, which is what an f-string writes for \<^verbatim>\<open>{v}\<close>.\<close>

definition py_str :: "pyval \<Rightarrow> string" where
  "py_str v = (case v of PStr t \<Rightarrow> t | _ \<Rightarrow> py_repr v)"

section \<open>The validator: \<^verbatim>\<open>validators.py\<close>\<close>

definition err :: "string \<Rightarrow> error + 'a" where
  "err msg = Inl (SchemaValidationError msg)"

text \<open>\<^verbatim>\<open>isinstance(v, str) and v\<close>: a text that is not empty.\<close>

definition nonempty_str :: "pyval \<Rightarrow> bool" where
  "nonempty_str v = (case v of PStr t \<Rightarrow> t \<noteq> [] | _ \<Rightarrow> False)"

definition is_str :: "pyval \<Rightarrow> bool" where
  "is_str v = (case v of PStr t \<Rightarrow> True | _ \<Rightarrow> False)"

text \<open>
  \<^verbatim>\<open>key in obj\<close> where the source has not checked that \<open>obj\<close> is a dictionary: a list is
  searched for the element, a text for the piece.
\<close>

fun is_substring :: "string \<Rightarrow> string \<Rightarrow> bool" where
  "is_substring w [] = (w = [])"
| "is_substring w (c # cs) = (take (length w) (c # cs) = w \<or> is_substring w cs)"

definition contains :: "pyval \<Rightarrow> string \<Rightarrow> error + bool" where
  "contains obj key =
     (case obj of
        PDict d \<Rightarrow> Inr (map_of d key \<noteq> None)
      | PList xs \<Rightarrow> Inr (PStr key \<in> set xs)
      | PStr t \<Rightarrow> Inr (is_substring key t)
      | _ \<Rightarrow> Inl TypeError)"

subsection \<open>\<^verbatim>\<open>_validate_column\<close>\<close>

definition validate_column :: "pyval \<Rightarrow> string \<Rightarrow> nat \<Rightarrow> error + unit" where
  "validate_column column table_name index =
     (case column of
        PDict c \<Rightarrow>
          (case map_of c ''name'' of
             None \<Rightarrow> err (''Column at index '' @ show_nat index @ '' in table ''
                           @ quoted table_name @ '' must have 'name' field'')
           | Some name \<Rightarrow>
               (case map_of c ''type'' of
                  None \<Rightarrow> err (''Column '' @ quoted (py_str name) @ '' in table ''
                                @ quoted table_name @ '' must have 'type' field'')
                | Some ty \<Rightarrow>
                    if \<not> nonempty_str name then
                      err (''Column name at index '' @ show_nat index @ '' in table ''
                           @ quoted table_name @ '' must be a non-empty string'')
                    else if \<not> nonempty_str ty then
                      err (''Column '' @ quoted (py_str name) @ '' type in table ''
                           @ quoted table_name @ '' must be a non-empty string'')
                    else
                      (case map_of c ''constraints'' of
                         Some cs \<Rightarrow>
                           if cs \<noteq> PNone \<and> \<not> is_str cs then
                             err (''Column '' @ quoted (py_str name) @ '' constraints in table ''
                                  @ quoted table_name @ '' must be a string'')
                           else Inr ()
                       | None \<Rightarrow> Inr ())))
      | _ \<Rightarrow> err (''Column at index '' @ show_nat index @ '' in table ''
                   @ quoted table_name @ '' must be a dictionary''))"

subsection \<open>\<^verbatim>\<open>_validate_table\<close>\<close>

text \<open>The loop over the columns, with the set \<open>column_names\<close> of the names seen.\<close>

fun validate_columns :: "string \<Rightarrow> nat \<Rightarrow> pyval list \<Rightarrow> pyval set \<Rightarrow> error + pyval set" where
  "validate_columns table_name col_idx [] column_names = Inr column_names"
| "validate_columns table_name col_idx (column # rest) column_names =
     (case validate_column column table_name col_idx of
        Inl e \<Rightarrow> Inl e
      | Inr _ \<Rightarrow>
          and_then (subscript column ''name'') (\<lambda>name.
          and_then (element_of name column_names) (\<lambda>seen.
            if seen then
              err (''Duplicate column name '' @ quoted (py_str name) @ '' in table ''
                   @ quoted table_name)
            else validate_columns table_name (Suc col_idx) rest (insert name column_names))))"

text \<open>The loop over the primary key.\<close>

fun validate_primary_key :: "string \<Rightarrow> pyval list \<Rightarrow> pyval set \<Rightarrow> error + unit" where
  "validate_primary_key table_name [] column_names = Inr ()"
| "validate_primary_key table_name (pk_col # rest) column_names =
     and_then (element_of pk_col column_names) (\<lambda>found.
       if \<not> found then
         err (''Primary key column '' @ quoted (py_str pk_col) @ '' not found in table ''
              @ quoted table_name)
       else validate_primary_key table_name rest column_names)"

definition validate_table :: "pyval \<Rightarrow> nat \<Rightarrow> error + unit" where
  "validate_table table index =
     (case table of
        PDict t \<Rightarrow>
          (case map_of t ''name'' of
             None \<Rightarrow> err (''Table at index '' @ show_nat index @ '' must have 'name' field'')
           | Some name \<Rightarrow>
          (case map_of t ''columns'' of
             None \<Rightarrow> err (''Table '' @ quoted (py_str name) @ '' must have 'columns' field'')
           | Some cols \<Rightarrow>
          (case map_of t ''primary_key'' of
             None \<Rightarrow> err (''Table '' @ quoted (py_str name) @ '' must have 'primary_key' field'')
           | Some pk \<Rightarrow>
          (case name of
             PStr n \<Rightarrow>
               if n = [] then
                 err (''Table name at index '' @ show_nat index @ '' must be a non-empty string'')
               else
                 (case cols of
                    PList cs \<Rightarrow>
                      if cs = [] then
                        err (''Table '' @ quoted n @ '' must have at least one column'')
                      else
                        and_then (validate_columns n 0 cs {}) (\<lambda>column_names.
                          (case pk of
                             PList pks \<Rightarrow> validate_primary_key n pks column_names
                           | _ \<Rightarrow> err (''Table '' @ quoted n @ '' primary_key must be a list'')))
                  | _ \<Rightarrow> err (''Table '' @ quoted n @ '' columns must be a list''))
           | _ \<Rightarrow>
               err (''Table name at index '' @ show_nat index @ '' must be a non-empty string'')))))
      | _ \<Rightarrow> err (''Table at index '' @ show_nat index @ '' must be a dictionary''))"

subsection \<open>\<^verbatim>\<open>_validate_foreign_key\<close>\<close>

definition required_fields :: "string list" where
  "required_fields = [''name'', ''columns'', ''ref_table'', ''ref_columns'']"

text \<open>\<^verbatim>\<open>table_columns[key]\<close>\<close>

definition columns_of :: "(pyval \<rightharpoonup> pyval set) \<Rightarrow> pyval \<Rightarrow> error + pyval set" where
  "columns_of table_columns key =
     (case table_columns key of Some names \<Rightarrow> Inr names | None \<Rightarrow> Inl (KeyError key))"

text \<open>The two loops over column names; \<open>msg\<close> writes the message for a name not found.\<close>

fun check_columns :: "(pyval \<Rightarrow> string) \<Rightarrow> pyval list \<Rightarrow> pyval set \<Rightarrow> error + unit" where
  "check_columns msg [] names = Inr ()"
| "check_columns msg (col # rest) names =
     and_then (element_of col names) (\<lambda>found.
       if \<not> found then err (msg col) else check_columns msg rest names)"

definition validate_foreign_key ::
  "pyval \<Rightarrow> pyval \<Rightarrow> nat \<Rightarrow> pyval set \<Rightarrow> (pyval \<rightharpoonup> pyval set) \<Rightarrow> error + unit" where
  "validate_foreign_key fk table index table_names table_columns =
     and_then (subscript table ''name'') (\<lambda>table_name.
     (case fk of
        PDict f \<Rightarrow>
          (case find (\<lambda>field. map_of f field = None) required_fields of
             Some field \<Rightarrow>
               err (''Foreign key at index '' @ show_nat index @ '' in table ''
                    @ quoted (py_str table_name) @ '' must have '' @ quoted field @ '' field'')
           | None \<Rightarrow>
          and_then (subscript fk ''name'') (\<lambda>name.
            if \<not> nonempty_str name then
              err (''Foreign key name at index '' @ show_nat index @ '' in table ''
                   @ quoted (py_str table_name) @ '' must be a non-empty string'')
            else
          and_then (subscript fk ''columns'') (\<lambda>cols.
          (case cols of
             PList cs \<Rightarrow>
               if cs = [] then
                 err (''Foreign key '' @ quoted (py_str name) @ '' columns in table ''
                      @ quoted (py_str table_name) @ '' must be a non-empty list'')
               else
          and_then (columns_of table_columns table_name) (\<lambda>own.
          and_then (check_columns
                      (\<lambda>col. ''Foreign key '' @ quoted (py_str name)
                              @ '' references non-existent column '' @ quoted (py_str col)
                              @ '' in table '' @ quoted (py_str table_name)) cs own) (\<lambda>_.
          and_then (subscript fk ''ref_table'') (\<lambda>rt.
            if \<not> nonempty_str rt then
              err (''Foreign key '' @ quoted (py_str name) @ '' ref_table in table ''
                   @ quoted (py_str table_name) @ '' must be a non-empty string'')
            else if rt \<notin> table_names then
              err (''Foreign key '' @ quoted (py_str name) @ '' in table ''
                   @ quoted (py_str table_name) @ '' references non-existent table ''
                   @ quoted (py_str rt))
            else
          and_then (subscript fk ''ref_columns'') (\<lambda>rcols.
          (case rcols of
             PList rs \<Rightarrow>
               if rs = [] then
                 err (''Foreign key '' @ quoted (py_str name) @ '' ref_columns in table ''
                      @ quoted (py_str table_name) @ '' must be a non-empty list'')
               else
          and_then (columns_of table_columns rt) (\<lambda>theirs.
          and_then (check_columns
                      (\<lambda>col. ''Foreign key '' @ quoted (py_str name) @ '' in table ''
                              @ quoted (py_str table_name) @ '' references non-existent column ''
                              @ quoted (py_str col) @ '' in table '' @ quoted (py_str rt))
                      rs theirs) (\<lambda>_.
            if length cs \<noteq> length rs then
              err (''Foreign key '' @ quoted (py_str name) @ '' in table ''
                   @ quoted (py_str table_name) @ '' has mismatched column counts: ''
                   @ show_nat (length cs) @ '' columns but '' @ show_nat (length rs)
                   @ '' ref_columns'')
            else Inr ()))
           | _ \<Rightarrow>
               err (''Foreign key '' @ quoted (py_str name) @ '' ref_columns in table ''
                    @ quoted (py_str table_name) @ '' must be a non-empty list''))))))
           | _ \<Rightarrow>
               err (''Foreign key '' @ quoted (py_str name) @ '' columns in table ''
                    @ quoted (py_str table_name) @ '' must be a non-empty list'')))))
      | _ \<Rightarrow> err (''Foreign key at index '' @ show_nat index @ '' in table ''
                   @ quoted (py_str table_name) @ '' must be a dictionary'')))"

subsection \<open>\<^verbatim>\<open>_validate_foreign_keys\<close>\<close>

fun validate_fk_loop ::
  "pyval \<Rightarrow> nat \<Rightarrow> pyval list \<Rightarrow> pyval set \<Rightarrow> (pyval \<rightharpoonup> pyval set) \<Rightarrow> error + unit" where
  "validate_fk_loop table fk_idx [] table_names table_columns = Inr ()"
| "validate_fk_loop table fk_idx (fk # rest) table_names table_columns =
     and_then (validate_foreign_key fk table fk_idx table_names table_columns) (\<lambda>_.
       validate_fk_loop table (Suc fk_idx) rest table_names table_columns)"

definition validate_foreign_keys ::
  "pyval \<Rightarrow> pyval set \<Rightarrow> (pyval \<rightharpoonup> pyval set) \<Rightarrow> error + unit" where
  "validate_foreign_keys table table_names table_columns =
     and_then (contains table ''foreign_keys'') (\<lambda>present.
       if \<not> present then Inr ()
       else
         and_then (subscript table ''foreign_keys'') (\<lambda>fks.
           (case fks of
              PList fs \<Rightarrow> validate_fk_loop table 0 fs table_names table_columns
            | _ \<Rightarrow>
                and_then (subscript table ''name'') (\<lambda>name.
                  err (''Table '' @ quoted (py_str name) @ '' foreign_keys must be a list'')))))"

subsection \<open>\<^verbatim>\<open>validate_schema\<close>\<close>

text \<open>
  The first pass, over the tables with their index: it validates the table, then records
  its name and the set of its column names.
\<close>

fun first_pass ::
  "nat \<Rightarrow> pyval list \<Rightarrow> pyval set \<times> (pyval \<rightharpoonup> pyval set)
     \<Rightarrow> error + pyval set \<times> (pyval \<rightharpoonup> pyval set)" where
  "first_pass i [] acc = Inr acc"
| "first_pass i (table # rest) (table_names, table_columns) =
     and_then (validate_table table i) (\<lambda>_.
     and_then (subscript table ''name'') (\<lambda>name.
     and_then (subscript table ''columns'') (\<lambda>cols.
     and_then (iterate cols) (\<lambda>cs.
     and_then (for_each (\<lambda>col. subscript col ''name'') cs) (\<lambda>names.
       first_pass (Suc i) rest
         (insert name table_names, table_columns(name \<mapsto> set names)))))))"

text \<open>The second pass, over the tables again.\<close>

fun second_pass :: "pyval list \<Rightarrow> pyval set \<Rightarrow> (pyval \<rightharpoonup> pyval set) \<Rightarrow> error + unit" where
  "second_pass [] table_names table_columns = Inr ()"
| "second_pass (table # rest) table_names table_columns =
     and_then (validate_foreign_keys table table_names table_columns) (\<lambda>_.
       second_pass rest table_names table_columns)"

definition validate_schema :: "pyval \<Rightarrow> error + bool" where
  "validate_schema schema =
     (case schema of
        PDict s \<Rightarrow>
          (case map_of s ''tables'' of
             None \<Rightarrow> err ''Schema must have 'tables' key''
           | Some tables \<Rightarrow>
               (case tables of
                  PList ts \<Rightarrow>
                    and_then (first_pass 0 ts ({}, Map.empty)) (\<lambda>(table_names, table_columns).
                    and_then (second_pass ts table_names table_columns) (\<lambda>_. Inr True))
                | _ \<Rightarrow> err (sq @ ''tables'' @ sq @ '' must be a list'')))
      | _ \<Rightarrow> err ''Schema must be a dictionary'')"

subsection \<open>The parser's result as the dictionaries it is in Python\<close>

text \<open>
  The texts of a value hold the code points 0 to 255.  The type of a column can hold
  others, so the dictionary of a column, and with it that of its table, is given where the
  type lies in that range.
\<close>

definition text_of :: "nat list \<Rightarrow> string option" where
  "text_of ps = (if list_all (\<lambda>p. p < 256) ps then Some (map char_of ps) else None)"

definition dict_of_col :: "col_def \<Rightarrow> pyval option" where
  "dict_of_col c =
     map_option
       (\<lambda>ty. PDict [(''name'', PStr (col_name c)), (''type'', PStr ty),
                     (''constraints'', (case constraints c of Some t \<Rightarrow> PStr t | None \<Rightarrow> PNone)),
                     (''is_primary_key'', PBool (is_primary_key c))])
       (text_of (col_type c))"

definition dict_of_fk :: "fk_def \<Rightarrow> pyval" where
  "dict_of_fk f =
     PDict [(''name'', PStr (fk_name f)), (''columns'', PList (map PStr (fk_columns f))),
            (''ref_table'', PStr (ref_table f)),
            (''ref_columns'', PList (map PStr (ref_columns f)))]"

definition dict_of_table :: "table_def \<Rightarrow> pyval option" where
  "dict_of_table t =
     map_option
       (\<lambda>cols. PDict [(''name'', PStr (tbl_name t)),
                       (''columns'', PList cols),
                       (''primary_key'', PList (map PStr (primary_key t))),
                       (''foreign_keys'', PList (map dict_of_fk (foreign_keys t)))])
       (those (map dict_of_col (columns t)))"

definition dict_of_tables :: "table_def list \<Rightarrow> pyval option" where
  "dict_of_tables ts =
     map_option (\<lambda>tables. PDict [(''tables'', PList tables)]) (those (map dict_of_table ts))"

section \<open>The AST builder: \<^verbatim>\<open>ast_builder.py\<close> and \<^verbatim>\<open>schema.py\<close>\<close>

text \<open>
  The data classes do not check the types of their fields, so a field holds whatever value
  the dictionary had.
\<close>

record Column =
  c_name :: pyval
  c_type :: pyval
  c_constraints :: pyval

record ForeignKey =
  k_name :: pyval
  k_columns :: pyval
  k_ref_table :: pyval
  k_ref_columns :: pyval

record Table =
  t_name :: pyval
  t_columns :: "Column list"
  t_primary_key :: pyval
  t_foreign_keys :: "ForeignKey list"

record Schema =
  s_tables :: "Table list"

definition build_column :: "pyval \<Rightarrow> error + Column" where
  "build_column col_dict =
     and_then (subscript col_dict ''name'') (\<lambda>n.
     and_then (subscript col_dict ''type'') (\<lambda>t.
     and_then (py_get col_dict ''constraints'' PNone) (\<lambda>c.
       Inr \<lparr>c_name = n, c_type = t, c_constraints = c\<rparr>)))"

definition build_foreign_key :: "pyval \<Rightarrow> error + ForeignKey" where
  "build_foreign_key fk_dict =
     and_then (subscript fk_dict ''name'') (\<lambda>n.
     and_then (subscript fk_dict ''columns'') (\<lambda>cs.
     and_then (subscript fk_dict ''ref_table'') (\<lambda>rt.
     and_then (subscript fk_dict ''ref_columns'') (\<lambda>rcs.
       Inr \<lparr>k_name = n, k_columns = cs, k_ref_table = rt, k_ref_columns = rcs\<rparr>))))"

definition build_table :: "pyval \<Rightarrow> error + Table" where
  "build_table table_dict =
     and_then (py_get table_dict ''columns'' (PList [])) (\<lambda>cols.
     and_then (iterate cols) (\<lambda>col_dicts.
     and_then (for_each build_column col_dicts) (\<lambda>cs.
     and_then (py_get table_dict ''foreign_keys'' (PList [])) (\<lambda>fks.
     and_then (iterate fks) (\<lambda>fk_dicts.
     and_then (for_each build_foreign_key fk_dicts) (\<lambda>fs.
     and_then (subscript table_dict ''name'') (\<lambda>n.
     and_then (py_get table_dict ''primary_key'' (PList [])) (\<lambda>pk.
       Inr \<lparr>t_name = n, t_columns = cs, t_primary_key = pk, t_foreign_keys = fs\<rparr>))))))))"

definition build :: "pyval \<Rightarrow> error + Schema" where
  "build parsed_sql =
     and_then (py_get parsed_sql ''tables'' (PList [])) (\<lambda>tables.
     and_then (iterate tables) (\<lambda>table_dicts.
     and_then (for_each build_table table_dicts) (\<lambda>ts.
       Inr \<lparr>s_tables = ts\<rparr>)))"

section \<open>What the specification says, in its own words\<close>

subsection \<open>The language of a pattern\<close>

text \<open>
  The texts a pattern matches, stated without reference to the order in which a matcher
  tries them; \<open>occurs r s\<close> says that \<open>s\<close> contains a text that \<open>r\<close> matches.
\<close>

primrec words :: "rx \<Rightarrow> string set" where
  "words (Lit ci w) = {u. length u = length w \<and> (if ci then fold_case u = fold_case w else u = w)}"
| "words (Chr p) = {[c] | c. p c}"
| "words (Star p) = {u. \<forall>c \<in> set u. p c}"
| "words (Plus p) = {u. u \<noteq> [] \<and> (\<forall>c \<in> set u. p c)}"
| "words (Cat a b) = {u @ v | u v. u \<in> words a \<and> v \<in> words b}"
| "words (Grp n r) = words r"
| "words (Opt r) = insert [] (words r)"

definition occurs :: "rx \<Rightarrow> string \<Rightarrow> bool" where
  "occurs r s = (\<exists>pre u post. u \<in> words r \<and> s = pre @ u @ post)"

subsection \<open>Splitting at top-level commas\<close>

text \<open>
  The depth after a text is the number of its opening parentheses less the number of its
  closing ones.  The split points of \<open>s\<close> are the positions of the commas before which
  the depth is zero, and the substrings delimited by them are the pieces of \<open>s\<close> between
  one split point and the next, from the start of \<open>s\<close> to its end.
\<close>

definition depth :: "string \<Rightarrow> int" where
  "depth t = int (count_list t CHR ''('') - int (count_list t CHR '')'')"

definition top_commas :: "string \<Rightarrow> nat list" where
  "top_commas s = filter (\<lambda>i. s ! i = CHR '','' \<and> depth (take i s) = 0) [0 ..< length s]"

definition cut :: "string \<Rightarrow> nat list \<Rightarrow> string list" where
  "cut s cs = map (\<lambda>(a, b). take (b - a) (drop a s)) (zip (0 # map Suc cs) (cs @ [length s]))"

definition pieces :: "string \<Rightarrow> string list" where
  "pieces s = cut s (top_commas s)"

text \<open>Auxiliary notions for the proof: the same pieces, computed from left to right.\<close>

definition step_depth :: "char \<Rightarrow> int" where
  "step_depth c = (if c = CHR ''('' then 1 else if c = CHR '')'' then - 1 else 0)"

fun segs :: "int \<Rightarrow> string \<Rightarrow> string list" where
  "segs d [] = [[]]"
| "segs d (c # cs) =
     (if c = CHR '','' \<and> d = 0 then [] # segs d cs
      else (case segs (d + step_depth c) cs of p # ps \<Rightarrow> (c # p) # ps | [] \<Rightarrow> []))"

definition commas_from :: "int \<Rightarrow> string \<Rightarrow> nat list" where
  "commas_from d s = filter (\<lambda>i. s ! i = CHR '','' \<and> d + depth (take i s) = 0) [0 ..< length s]"

definition piece :: "string \<Rightarrow> nat \<times> nat \<Rightarrow> string" where
  "piece s ab = take (snd ab - fst ab) (drop (fst ab) s)"

subsection \<open>The body of a table, read as claim C2 states it\<close>

text \<open>
  The text between the first opening parenthesis and the closing parenthesis that matches
  it: \<open>close_of d t\<close> reads \<open>t\<close> up to that parenthesis, \<open>d\<close> being the number of
  parentheses opened since and not yet closed.
\<close>

fun close_of :: "nat \<Rightarrow> string \<Rightarrow> string option" where
  "close_of d [] = None"
| "close_of d (c # cs) =
     (if c = CHR '')'' then (case d of 0 \<Rightarrow> Some [] | Suc d' \<Rightarrow> map_option ((#) c) (close_of d' cs))
      else if c = CHR ''('' then map_option ((#) c) (close_of (Suc d) cs)
      else map_option ((#) c) (close_of d cs))"

definition matched_body :: "string \<Rightarrow> string option" where
  "matched_body text =
     (case dropWhile (\<lambda>c. c \<noteq> CHR ''('') text of [] \<Rightarrow> None | c # rest \<Rightarrow> close_of 0 rest)"

subsection \<open>The clauses of a fragment, spelled out\<close>

text \<open>
  What the specification calls a pattern in a fragment: a keyword in any case, white
  space, a parenthesized list of columns.  \<open>contains_piece P s\<close> says that some piece of
  \<open>s\<close> is of the form \<open>P\<close>.
\<close>

definition keyword :: "string \<Rightarrow> string \<Rightarrow> bool" where
  "keyword w u = (fold_case u = w)"

definition spaces :: "string \<Rightarrow> bool" where
  "spaces ws = (\<forall>c \<in> set ws. is_space c)"

definition column_text :: "string \<Rightarrow> bool" where
  "column_text cols = (cols \<noteq> [] \<and> CHR '')'' \<notin> set cols)"

definition contains_piece :: "(string \<Rightarrow> bool) \<Rightarrow> string \<Rightarrow> bool" where
  "contains_piece P s = (\<exists>pre u post. s = pre @ u @ post \<and> P u)"

definition foreign_key_clause :: "string \<Rightarrow> bool" where
  "foreign_key_clause u =
     (\<exists>k1 ws1 k2 ws2 cols. u = k1 @ ws1 @ k2 @ ws2 @ ''('' @ cols @ '')''
        \<and> keyword ''FOREIGN'' k1 \<and> ws1 \<noteq> [] \<and> spaces ws1 \<and> keyword ''KEY'' k2
        \<and> spaces ws2 \<and> column_text cols)"

definition references_clause :: "string \<Rightarrow> bool" where
  "references_clause u =
     (\<exists>k ws1 tbl ws2 cols. u = k @ ws1 @ tbl @ ws2 @ ''('' @ cols @ '')''
        \<and> keyword ''REFERENCES'' k \<and> ws1 \<noteq> [] \<and> spaces ws1
        \<and> tbl \<noteq> [] \<and> (\<forall>c \<in> set tbl. \<not> is_space c \<and> c \<noteq> CHR ''('')
        \<and> spaces ws2 \<and> column_text cols)"

definition constraint_name :: "string \<Rightarrow> bool" where
  "constraint_name u =
     (\<exists>k ws nm. u = k @ ws @ nm
        \<and> keyword ''CONSTRAINT'' k \<and> ws \<noteq> [] \<and> spaces ws
        \<and> nm \<noteq> [] \<and> (\<forall>c \<in> set nm. \<not> is_space c))"

definition primary_key_phrase :: "string \<Rightarrow> bool" where
  "primary_key_phrase u =
     (\<exists>k1 ws k2. u = k1 @ ws @ k2
        \<and> keyword ''PRIMARY'' k1 \<and> ws \<noteq> [] \<and> spaces ws \<and> keyword ''KEY'' k2)"

text \<open>\<open>begins P s\<close>: \<open>s\<close> starts with a piece of the form \<open>P\<close>.\<close>

definition begins :: "(string \<Rightarrow> bool) \<Rightarrow> string \<Rightarrow> bool" where
  "begins P s = (\<exists>u post. s = u @ post \<and> P u)"

definition foreign_key_words :: "string \<Rightarrow> bool" where
  "foreign_key_words u =
     (\<exists>k1 ws k2. u = k1 @ ws @ k2
        \<and> keyword ''FOREIGN'' k1 \<and> ws \<noteq> [] \<and> spaces ws \<and> keyword ''KEY'' k2)"

text \<open>
  The fragments that the clause loop hands to the foreign-key clause parser: those that
  begin with \<^verbatim>\<open>FOREIGN KEY\<close> or with \<^verbatim>\<open>CONSTRAINT\<close>, the test for a primary key
  having come first.
\<close>

definition handed_to_foreign_key_parser :: "string \<Rightarrow> bool" where
  "handed_to_foreign_key_parser part =
     (\<not> begins primary_key_phrase part
      \<and> (begins foreign_key_words part \<or> begins (keyword ''CONSTRAINT'') part))"

subsection \<open>Trimmed and unquoted text\<close>

text \<open>
  \<open>stripped_of p s t\<close>: \<open>t\<close> is \<open>s\<close> without the characters of the kind \<open>p\<close> at its two
  ends, so \<open>t\<close> neither begins nor ends with one.  A text is trimmed of white space and
  unquoted of the quoting characters: backtick, double quote and the two brackets.
\<close>

definition stripped_of :: "(char \<Rightarrow> bool) \<Rightarrow> string \<Rightarrow> string \<Rightarrow> bool" where
  "stripped_of p s t =
     (\<exists>l r. s = l @ t @ r \<and> (\<forall>c \<in> set l. p c) \<and> (\<forall>c \<in> set r. p c)
            \<and> (t = [] \<or> (\<not> p (hd t) \<and> \<not> p (last t))))"

definition trimmed :: "string \<Rightarrow> string \<Rightarrow> bool" where
  "trimmed s t = stripped_of is_space s t"

definition is_quote :: "char \<Rightarrow> bool" where
  "is_quote c = (c = CHR 0x60 \<or> c = CHR 0x22 \<or> c = CHR ''['' \<or> c = CHR '']'')"

definition unquoted :: "string \<Rightarrow> string \<Rightarrow> bool" where
  "unquoted s t = stripped_of is_quote s t"

subsection \<open>What one fragment adds to the primary key, as claim C3 states it\<close>

text \<open>
  A clause \<^verbatim>\<open>PRIMARY KEY (cols)\<close>: the two words in any case with white space between
  them, white space or none, and between parentheses a text \<open>cols\<close> that is not empty and
  holds no closing parenthesis.  \<open>clause_at s i cols\<close> says that such a clause begins at
  position \<open>i\<close> of \<open>s\<close>, and \<open>first_clause s cols\<close> that \<open>cols\<close> is the text of the
  clause that begins first.
\<close>

definition primary_key_clause :: "string \<Rightarrow> string \<Rightarrow> bool" where
  "primary_key_clause cols u =
     (\<exists>k1 ws1 k2 ws2. u = k1 @ ws1 @ k2 @ ws2 @ ''('' @ cols @ '')''
        \<and> keyword ''PRIMARY'' k1 \<and> ws1 \<noteq> [] \<and> spaces ws1 \<and> keyword ''KEY'' k2
        \<and> spaces ws2 \<and> column_text cols)"

definition clause_at :: "string \<Rightarrow> nat \<Rightarrow> string \<Rightarrow> bool" where
  "clause_at s i cols =
     (\<exists>pre u post. s = pre @ u @ post \<and> length pre = i \<and> primary_key_clause cols u)"

definition first_clause :: "string \<Rightarrow> string \<Rightarrow> bool" where
  "first_clause s cols = (\<exists>i. clause_at s i cols \<and> (\<forall>j cols'. clause_at s j cols' \<longrightarrow> i \<le> j))"

text \<open>
  The names listed in \<open>cols\<close>: \<open>cols\<close> is cut at its commas, and each item, trimmed and
  then unquoted, is a name.
\<close>

definition separated :: "char \<Rightarrow> string \<Rightarrow> string list \<Rightarrow> bool" where
  "separated sep s items =
     (items \<noteq> [] \<and> s = join [sep] items \<and> (\<forall>item \<in> set items. sep \<notin> set item))"

definition listed :: "string \<Rightarrow> string list \<Rightarrow> bool" where
  "listed cols names =
     (\<exists>items. separated CHR '','' cols items
        \<and> list_all2 (\<lambda>item name. \<exists>m. trimmed item m \<and> unquoted m name) items names)"

text \<open>
  What a fragment adds.  A fragment that, trimmed, begins with the phrase
  \<^verbatim>\<open>PRIMARY KEY\<close> is a standalone clause: it adds the names listed in its first clause
  \<^verbatim>\<open>PRIMARY KEY (cols)\<close>, and nothing when it has none.  Any other fragment adds the
  names of the columns it yields that are flagged as inline primary keys.
\<close>

definition flagged_names :: "col_def list \<Rightarrow> string list" where
  "flagged_names cs = map col_name (filter is_primary_key cs)"

definition adds_to_key :: "string \<Rightarrow> string list \<Rightarrow> bool" where
  "adds_to_key fragment names =
     (\<exists>part. trimmed fragment part \<and>
        (if begins primary_key_phrase part
         then (\<exists>cols. first_clause part cols \<and> listed cols names)
              \<or> ((\<forall>i cols. \<not> clause_at part i cols) \<and> names = [])
         else names = flagged_names (columns (parse_part no_clauses fragment))))"

subsection \<open>The first attempt of the matcher\<close>

text \<open>\<open>first_run r st y\<close>: the first way the matcher finds for \<open>r\<close> from \<open>st\<close> ends in \<open>y\<close>.\<close>

definition first_run :: "rx \<Rightarrow> groups \<times> string \<Rightarrow> groups \<times> string \<Rightarrow> bool" where
  "first_run r st y = (\<exists>rest. runs r st = y # rest)"

subsection \<open>The remainder of a column definition, as claim C9 states it\<close>

text \<open>
  A column definition with a third piece \<open>r\<close>: white space or none, a word, white space,
  a second word, white space, and then \<open>r\<close>, which begins with a character that is not
  white space and runs to the end.
\<close>

definition word :: "string \<Rightarrow> bool" where
  "word w = (w \<noteq> [] \<and> (\<forall>c \<in> set w. \<not> is_space c))"

definition third_piece :: "string \<Rightarrow> string \<Rightarrow> bool" where
  "third_piece cd r =
     (\<exists>ws0 n ws1 t ws2. cd = ws0 @ n @ ws1 @ t @ ws2 @ r
        \<and> spaces ws0 \<and> word n \<and> ws1 \<noteq> [] \<and> spaces ws1 \<and> word t \<and> ws2 \<noteq> [] \<and> spaces ws2
        \<and> r \<noteq> [] \<and> \<not> is_space (hd r))"

text \<open>
  \<open>phrases_removed s t\<close>: \<open>t\<close> is \<open>s\<close> without its phrases \<^verbatim>\<open>PRIMARY KEY\<close>.  Either
  \<open>s\<close> contains none and \<open>t\<close> is \<open>s\<close>, or \<open>s\<close> is a text without the phrase, then the
  phrase, then a rest, and \<open>t\<close> is the text before the phrase and the rest without its
  phrases.
\<close>

inductive phrases_removed :: "string \<Rightarrow> string \<Rightarrow> bool" where
  none: "\<not> contains_piece primary_key_phrase s \<Longrightarrow> phrases_removed s s"
| one: "\<not> contains_piece primary_key_phrase pre \<Longrightarrow> primary_key_phrase u
        \<Longrightarrow> phrases_removed post post' \<Longrightarrow> phrases_removed (pre @ u @ post) (pre @ post')"

subsection \<open>Tokens for the examples\<close>

definition tok :: "ttype \<Rightarrow> string \<Rightarrow> token" where
  "tok ty v = \<lparr>ttype = ty, val = v, is_whitespace = False\<rparr>"

definition space_tok :: token where
  "space_tok = \<lparr>ttype = Other, val = '' '', is_whitespace = True\<rparr>"

text \<open>
  The tokens of \<^verbatim>\<open>CREATE TABLE t ([id] INT PRIMARY KEY, PRIMARY KEY ([id], a))\<close> and of
  \<^verbatim>\<open>CREATE TABLE t;\<close>.
\<close>

definition statement_with_keys :: statement where
  "statement_with_keys =
     [tok DDL ''CREATE'', space_tok, tok Keyword ''TABLE'', space_tok, tok Name ''t'', space_tok,
      tok Other ''('', tok Name ''[id]'', space_tok, tok Name ''INT'', space_tok,
      tok Keyword ''PRIMARY'', space_tok, tok Keyword ''KEY'', tok Other '','', space_tok,
      tok Keyword ''PRIMARY'', space_tok, tok Keyword ''KEY'', space_tok, tok Other ''('',
      tok Name ''[id]'', tok Other '','', space_tok, tok Name ''a'', tok Other '')'',
      tok Other '')'']"

definition statement_without_body :: statement where
  "statement_without_body =
     [tok DDL ''CREATE'', space_tok, tok Keyword ''TABLE'', space_tok, tok Name ''t'',
      tok Other '';'']"

subsection \<open>Schemas for the examples\<close>

text \<open>
  Table \<open>a\<close> is well formed but for its foreign key, which names a table that does not
  exist; table \<open>b\<close> has two columns of the same name; \<open>b_fixed\<close> has one of them.
\<close>

definition column_dict :: "string \<Rightarrow> string \<Rightarrow> pyval" where
  "column_dict n t = PDict [(''name'', PStr n), (''type'', PStr t)]"

definition table_a :: pyval where
  "table_a =
     PDict [(''name'', PStr ''a''),
            (''columns'', PList [column_dict ''id'' ''INT'']),
            (''primary_key'', PList [PStr ''id'']),
            (''foreign_keys'',
               PList [PDict [(''name'', PStr ''fk''), (''columns'', PList [PStr ''id'']),
                             (''ref_table'', PStr ''missing''),
                             (''ref_columns'', PList [PStr ''id''])]])]"

definition table_b :: pyval where
  "table_b =
     PDict [(''name'', PStr ''b''),
            (''columns'', PList [column_dict ''id'' ''INT'', column_dict ''id'' ''TEXT'']),
            (''primary_key'', PList [])]"

definition table_b_fixed :: pyval where
  "table_b_fixed =
     PDict [(''name'', PStr ''b''),
            (''columns'', PList [column_dict ''id'' ''INT'']),
            (''primary_key'', PList [])]"

subsection \<open>The checks of a table, as claim C1 lists them\<close>

text \<open>
  \<open>name_of c\<close> is the value under \<open>name\<close> in the column \<open>c\<close>.  \<open>columns_pass n cs\<close>
  says that each column of \<open>cs\<close> passes \<^verbatim>\<open>_validate_column\<close> at its index and that no
  two of them have the same name.  \<open>table_with t n cs pk\<close> says that the table \<open>t\<close> has
  the three required keys, with the name \<open>n\<close>, which is not empty, the list \<open>cs\<close> of
  columns and the value \<open>pk\<close> as its primary key.
\<close>

definition name_of :: "pyval \<Rightarrow> pyval" where
  "name_of c =
     (case c of PDict d \<Rightarrow> (case map_of d ''name'' of Some v \<Rightarrow> v | None \<Rightarrow> PNone)
      | _ \<Rightarrow> PNone)"

definition columns_pass :: "string \<Rightarrow> pyval list \<Rightarrow> bool" where
  "columns_pass n cs =
     ((\<forall>j < length cs. validate_column (cs ! j) n j = Inr ()) \<and> distinct (map name_of cs))"

definition table_with :: "(string \<times> pyval) list \<Rightarrow> string \<Rightarrow> pyval list \<Rightarrow> pyval \<Rightarrow> bool" where
  "table_with t n cs pk =
     (map_of t ''name'' = Some (PStr n) \<and> n \<noteq> [] \<and> map_of t ''columns'' = Some (PList cs)
      \<and> map_of t ''primary_key'' = Some pk)"

text \<open>
  Table \<open>e\<close> has no \<open>primary_key\<close> and a column that is a number; table \<open>c\<close> has a
  second column without a type and a primary key that names no column; the primary key of
  table \<open>d\<close> names two columns that do not exist, after one that does.
\<close>

definition table_c :: "(string \<times> pyval) list" where
  "table_c =
     [(''name'', PStr ''c''),
      (''columns'', PList [column_dict ''id'' ''INT'', PDict [(''name'', PStr ''x'')]]),
      (''primary_key'', PList [PStr ''zz''])]"

definition table_d :: "(string \<times> pyval) list" where
  "table_d =
     [(''name'', PStr ''d''),
      (''columns'', PList [column_dict ''id'' ''INT'', column_dict ''v'' ''TEXT'']),
      (''primary_key'', PList [PStr ''id'', PStr ''zz'', PStr ''yy''])]"

definition table_e :: "(string \<times> pyval) list" where
  "table_e = [(''name'', PStr ''e''), (''columns'', PList [PInt 1])]"

subsection \<open>A foreign key that is valid but for its column counts\<close>

text \<open>
  The message of the last check of \<^verbatim>\<open>_validate_foreign_key\<close>, and the checks that come
  before it: the table has a name, the foreign key has a name, local columns that exist
  in the table, a referenced table that exists and referenced columns that exist in it.
\<close>

definition mismatch_message :: "string \<Rightarrow> string \<Rightarrow> nat \<Rightarrow> nat \<Rightarrow> string" where
  "mismatch_message nm tn m n =
     ''Foreign key '' @ quoted nm @ '' in table '' @ quoted tn
     @ '' has mismatched column counts: '' @ show_nat m @ '' columns but '' @ show_nat n
     @ '' ref_columns''"

definition passes_earlier_checks ::
  "(string \<times> pyval) list \<Rightarrow> pyval \<Rightarrow> pyval set \<Rightarrow> (pyval \<rightharpoonup> pyval set)
     \<Rightarrow> string \<Rightarrow> string \<Rightarrow> pyval list \<Rightarrow> string \<Rightarrow> pyval list \<Rightarrow> bool" where
  "passes_earlier_checks f table table_names table_columns tn nm cs rt rs =
     (subscript table ''name'' = Inr (PStr tn)
      \<and> map_of f ''name'' = Some (PStr nm) \<and> nm \<noteq> []
      \<and> map_of f ''columns'' = Some (PList cs) \<and> cs \<noteq> []
      \<and> (\<exists>own. table_columns (PStr tn) = Some own \<and> (\<forall>c \<in> set cs. hashable c \<and> c \<in> own))
      \<and> map_of f ''ref_table'' = Some (PStr rt) \<and> rt \<noteq> [] \<and> PStr rt \<in> table_names
      \<and> map_of f ''ref_columns'' = Some (PList rs) \<and> rs \<noteq> []
      \<and> (\<exists>theirs. table_columns (PStr rt) = Some theirs
                   \<and> (\<forall>c \<in> set rs. hashable c \<and> c \<in> theirs)))"

text \<open>
  Tables \<open>users\<close> and \<open>orders\<close>; the foreign key of \<open>orders\<close> has one local column and
  two referenced ones.  In \<open>orders_arity\<close> the local column exists, in \<open>orders_unknown\<close>
  it does not.
\<close>

definition table_users :: pyval where
  "table_users =
     PDict [(''name'', PStr ''users''),
            (''columns'', PList [column_dict ''id'' ''INT'', column_dict ''name'' ''TEXT'']),
            (''primary_key'', PList [PStr ''id''])]"

definition fk_user :: "string \<Rightarrow> (string \<times> pyval) list" where
  "fk_user col =
     [(''name'', PStr ''fk_user''), (''columns'', PList [PStr col]),
      (''ref_table'', PStr ''users''), (''ref_columns'', PList [PStr ''id'', PStr ''name''])]"

definition table_orders :: "string \<Rightarrow> pyval" where
  "table_orders col =
     PDict [(''name'', PStr ''orders''),
            (''columns'', PList [column_dict ''id'' ''INT'', column_dict ''user_id'' ''INT'']),
            (''primary_key'', PList [PStr ''id'']),
            (''foreign_keys'', PList [PDict (fk_user col)])]"

definition recorded_names :: "pyval set" where
  "recorded_names = {PStr ''users'', PStr ''orders''}"

definition recorded_columns :: "pyval \<rightharpoonup> pyval set" where
  "recorded_columns =
     [PStr ''users'' \<mapsto> {PStr ''id'', PStr ''name''},
      PStr ''orders'' \<mapsto> {PStr ''id'', PStr ''user_id''}]"

text \<open>
  The table \<open>orders\<close> with two foreign keys: the first is valid, the second has one local
  column and two referenced ones.
\<close>

definition fk_by_id :: "(string \<times> pyval) list" where
  "fk_by_id =
     [(''name'', PStr ''fk_by_id''), (''columns'', PList [PStr ''user_id'']),
      (''ref_table'', PStr ''users''), (''ref_columns'', PList [PStr ''id''])]"

definition orders_two :: "(string \<times> pyval) list" where
  "orders_two =
     [(''name'', PStr ''orders''),
      (''columns'', PList [column_dict ''id'' ''INT'', column_dict ''user_id'' ''INT'']),
      (''primary_key'', PList [PStr ''id'']),
      (''foreign_keys'', PList [PDict fk_by_id, PDict (fk_user ''user_id'')])]"

subsection \<open>Raw records and their required keys, as claim C4 states them\<close>

text \<open>
  A raw record of the parser's shape: a dictionary whose \<open>tables\<close> are a list of
  dictionaries with a \<open>name\<close>, whose \<open>columns\<close> are a list of dictionaries with \<open>name\<close>
  and \<open>type\<close>, and whose \<open>foreign_keys\<close> are a list of dictionaries with the keys
  \<open>fk_keys\<close>.  A list that is absent counts as empty, as \<^verbatim>\<open>.get(key, [])\<close> reads it.
  \<open>record_lacks key raw\<close> says that a table, a column or a foreign key of \<open>raw\<close> is a
  dictionary without the key \<open>key\<close>, which the builder reads there.
\<close>

definition entry :: "(string \<times> pyval) list \<Rightarrow> string \<Rightarrow> pyval \<Rightarrow> pyval" where
  "entry d key dflt = (case map_of d key of Some v \<Rightarrow> v | None \<Rightarrow> dflt)"

definition has_keys :: "string list \<Rightarrow> pyval \<Rightarrow> bool" where
  "has_keys ks v = (case v of PDict d \<Rightarrow> (\<forall>k \<in> set ks. map_of d k \<noteq> None) | _ \<Rightarrow> False)"

definition dicts_with :: "string list \<Rightarrow> pyval \<Rightarrow> bool" where
  "dicts_with ks v = (case v of PList xs \<Rightarrow> (\<forall>x \<in> set xs. has_keys ks x) | _ \<Rightarrow> False)"

definition table_record :: "string list \<Rightarrow> pyval \<Rightarrow> bool" where
  "table_record fk_keys t =
     (case t of
        PDict d \<Rightarrow>
          map_of d ''name'' \<noteq> None
          \<and> dicts_with [''name'', ''type''] (entry d ''columns'' (PList []))
          \<and> dicts_with fk_keys (entry d ''foreign_keys'' (PList []))
      | _ \<Rightarrow> False)"

definition raw_record :: "string list \<Rightarrow> pyval \<Rightarrow> bool" where
  "raw_record fk_keys raw =
     (case raw of
        PDict d \<Rightarrow>
          (case entry d ''tables'' (PList []) of
             PList ts \<Rightarrow> (\<forall>t \<in> set ts. table_record fk_keys t)
           | _ \<Rightarrow> False)
      | _ \<Rightarrow> False)"

definition lacks :: "string \<Rightarrow> pyval \<Rightarrow> bool" where
  "lacks key v = (case v of PDict d \<Rightarrow> map_of d key = None | _ \<Rightarrow> False)"

definition elements :: "pyval \<Rightarrow> pyval list" where
  "elements v = (case iterate v of Inr xs \<Rightarrow> xs | Inl e \<Rightarrow> [])"

definition table_lacks :: "string \<Rightarrow> pyval \<Rightarrow> bool" where
  "table_lacks key t =
     (case t of
        PDict d \<Rightarrow>
          (key = ''name'' \<and> map_of d ''name'' = None)
          \<or> (key \<in> {''name'', ''type''}
              \<and> (\<exists>c \<in> set (elements (entry d ''columns'' (PList []))). lacks key c))
          \<or> (key \<in> set required_fields
              \<and> (\<exists>fk \<in> set (elements (entry d ''foreign_keys'' (PList []))). lacks key fk))
      | _ \<Rightarrow> False)"

definition record_lacks :: "string \<Rightarrow> pyval \<Rightarrow> bool" where
  "record_lacks key raw =
     (case raw of
        PDict d \<Rightarrow> (\<exists>t \<in> set (elements (entry d ''tables'' (PList []))). table_lacks key t)
      | _ \<Rightarrow> False)"

text \<open>A table whose only foreign key is an empty dictionary.\<close>

definition raw_without_fk_keys :: pyval where
  "raw_without_fk_keys =
     PDict [(''tables'',
             PList [PDict [(''name'', PStr ''t''),
                           (''columns'', PList [column_dict ''id'' ''INT'']),
                           (''primary_key'', PList []),
                           (''foreign_keys'', PList [PDict []])]])]"

section \<open>The matcher finds what the pattern describes\<close>

lemma takeWhile_prefix_iff:
  "k \<le> length (takeWhile p s) \<longleftrightarrow> k \<le> length s \<and> (\<forall>c \<in> set (take k s). p c)"
proof (induction s arbitrary: k)
  case Nil
  show ?case by simp
next
  case (Cons a s)
  show ?case
  proof (cases k)
    case 0
    then show ?thesis by simp
  next
    case (Suc j)
    then show ?thesis using Cons.IH[of j] by auto
  qed
qed

lemma left_over_Star:
  "(\<exists>k \<le> length (takeWhile p s). s' = drop k s) \<longleftrightarrow> (\<exists>u. (\<forall>c \<in> set u. p c) \<and> s = u @ s')"
proof
  assume "\<exists>k \<le> length (takeWhile p s). s' = drop k s"
  then obtain k where k: "k \<le> length (takeWhile p s)" "s' = drop k s" by blast
  then have "\<forall>c \<in> set (take k s). p c" by (simp add: takeWhile_prefix_iff)
  moreover have "s = take k s @ s'" using k by simp
  ultimately show "\<exists>u. (\<forall>c \<in> set u. p c) \<and> s = u @ s'" by blast
next
  assume "\<exists>u. (\<forall>c \<in> set u. p c) \<and> s = u @ s'"
  then obtain u where u: "\<forall>c \<in> set u. p c" "s = u @ s'" by blast
  then have "length u \<le> length (takeWhile p s)"
    by (simp add: takeWhile_prefix_iff)
  moreover have "s' = drop (length u) s" using u by simp
  ultimately show "\<exists>k \<le> length (takeWhile p s). s' = drop k s" by blast
qed

lemma left_over_Plus:
  "(\<exists>k. 0 < k \<and> k \<le> length (takeWhile p s) \<and> s' = drop k s)
     \<longleftrightarrow> (\<exists>u. u \<noteq> [] \<and> (\<forall>c \<in> set u. p c) \<and> s = u @ s')"
proof
  assume "\<exists>k. 0 < k \<and> k \<le> length (takeWhile p s) \<and> s' = drop k s"
  then obtain k where k: "0 < k" "k \<le> length (takeWhile p s)" "s' = drop k s" by blast
  then have a: "\<forall>c \<in> set (take k s). p c" and l: "k \<le> length s"
    by (simp_all add: takeWhile_prefix_iff)
  have "take k s \<noteq> []" using k(1) l by auto
  moreover have "s = take k s @ s'" using k by simp
  ultimately show "\<exists>u. u \<noteq> [] \<and> (\<forall>c \<in> set u. p c) \<and> s = u @ s'" using a by blast
next
  assume "\<exists>u. u \<noteq> [] \<and> (\<forall>c \<in> set u. p c) \<and> s = u @ s'"
  then obtain u where u: "u \<noteq> []" "\<forall>c \<in> set u. p c" "s = u @ s'" by blast
  then have "length u \<le> length (takeWhile p s)"
    by (simp add: takeWhile_prefix_iff)
  moreover have "s' = drop (length u) s" using u by simp
  moreover have "0 < length u" using u(1) by simp
  ultimately show "\<exists>k. 0 < k \<and> k \<le> length (takeWhile p s) \<and> s' = drop k s" by blast
qed

lemma lit_matches_iff:
  "lit_matches ci w s \<longleftrightarrow> (\<exists>u \<in> words (Lit ci w). \<exists>s'. s = u @ s')"
proof
  assume m: "lit_matches ci w s"
  then have "take (length w) s \<in> words (Lit ci w)"
    by (auto simp: lit_matches_def)
  moreover have "s = take (length w) s @ drop (length w) s" by simp
  ultimately show "\<exists>u \<in> words (Lit ci w). \<exists>s'. s = u @ s'" by blast
next
  assume "\<exists>u \<in> words (Lit ci w). \<exists>s'. s = u @ s'"
  then obtain u s' where "u \<in> words (Lit ci w)" "s = u @ s'" by blast
  then show "lit_matches ci w s"
    by (auto simp: lit_matches_def)
qed

lemma runs_words: "snd ` set (runs r (g, s)) = {s'. \<exists>u \<in> words r. s = u @ s'}"
proof (induction r arbitrary: g s)
  case (Lit ci w)
  show ?case
  proof (cases "lit_matches ci w s")
    case True
    then have "take (length w) s \<in> words (Lit ci w)" "length w \<le> length s"
      by (auto simp: lit_matches_def)
    moreover have "\<And>u s'. u \<in> words (Lit ci w) \<Longrightarrow> s = u @ s' \<Longrightarrow> s' = drop (length w) s"
      by auto
    moreover have "s = take (length w) s @ drop (length w) s" by simp
    ultimately have "{s'. \<exists>u \<in> words (Lit ci w). s = u @ s'} = {drop (length w) s}"
      by blast
    with True show ?thesis by simp
  next
    case False
    then have "{s'. \<exists>u \<in> words (Lit ci w). s = u @ s'} = {}"
      using lit_matches_iff[of ci w s] by blast
    with False show ?thesis by simp
  qed
next
  case (Chr p)
  show ?case by (cases s) auto
next
  case (Star p)
  have "set (runs (Star p) (g, s)) = (\<lambda>k. (g, drop k s)) ` {0 ..< Suc (length (takeWhile p s))}"
    by (simp del: upt_Suc)
  then have "snd ` set (runs (Star p) (g, s))
             = (\<lambda>k. drop k s) ` {0 ..< Suc (length (takeWhile p s))}"
    by (simp add: image_image)
  also have "\<dots> = {s'. \<exists>k \<le> length (takeWhile p s). s' = drop k s}"
    by (rule set_eqI) (simp add: image_iff Bex_def less_Suc_eq_le)
  also have "\<dots> = {s'. \<exists>u. (\<forall>c \<in> set u. p c) \<and> s = u @ s'}"
    by (simp only: left_over_Star)
  finally show ?case by simp
next
  case (Plus p)
  have "set (runs (Plus p) (g, s)) = (\<lambda>k. (g, drop k s)) ` {1 ..< Suc (length (takeWhile p s))}"
    by (simp del: upt_Suc)
  then have "snd ` set (runs (Plus p) (g, s))
             = (\<lambda>k. drop k s) ` {1 ..< Suc (length (takeWhile p s))}"
    by (simp add: image_image)
  also have "\<dots> = {s'. \<exists>k. 0 < k \<and> k \<le> length (takeWhile p s) \<and> s' = drop k s}"
    by (rule set_eqI) (simp add: image_iff Bex_def less_Suc_eq_le Suc_le_eq conj_assoc)
  also have "\<dots> = {s'. \<exists>u. u \<noteq> [] \<and> (\<forall>c \<in> set u. p c) \<and> s = u @ s'}"
    by (simp only: left_over_Plus)
  finally show ?case by simp
next
  case (Cat a b)
  show ?case
  proof (rule set_eqI, rule iffI)
    fix t assume "t \<in> snd ` set (runs (Cat a b) (g, s))"
    then obtain g' s' g'' where a: "(g', s') \<in> set (runs a (g, s))"
      and b: "(g'', t) \<in> set (runs b (g', s'))"
      by auto
    from a have "s' \<in> snd ` set (runs a (g, s))" by force
    then obtain u where u: "u \<in> words a" "s = u @ s'" using Cat.IH(1) by auto
    from b have "t \<in> snd ` set (runs b (g', s'))" by force
    then obtain v where v: "v \<in> words b" "s' = v @ t" using Cat.IH(2) by auto
    from u v have "u @ v \<in> words (Cat a b)" "s = (u @ v) @ t" by auto
    then show "t \<in> {s'. \<exists>u \<in> words (Cat a b). s = u @ s'}" by blast
  next
    fix t assume "t \<in> {s'. \<exists>u \<in> words (Cat a b). s = u @ s'}"
    then obtain u v where uv: "u \<in> words a" "v \<in> words b" "s = (u @ v) @ t" by auto
    then have "v @ t \<in> snd ` set (runs a (g, s))" using Cat.IH(1)[of g s] by auto
    then obtain g' where a: "(g', v @ t) \<in> set (runs a (g, s))" by auto
    have "t \<in> snd ` set (runs b (g', v @ t))" using Cat.IH(2)[of g' "v @ t"] uv by auto
    then obtain g'' where "(g'', t) \<in> set (runs b (g', v @ t))" by auto
    with a show "t \<in> snd ` set (runs (Cat a b) (g, s))" by force
  qed
next
  case (Grp n r)
  have "snd ` set (runs (Grp n r) (g, s)) = snd ` set (runs r (g, s))"
    by (force simp: image_iff)
  then show ?case using Grp.IH by simp
next
  case (Opt r)
  have "snd ` set (runs (Opt r) (g, s)) = insert s (snd ` set (runs r (g, s)))"
    by simp
  then show ?case using Opt.IH[of g s] by auto
qed

lemma re_match_iff: "re_match r s \<noteq> None \<longleftrightarrow> (\<exists>u \<in> words r. \<exists>post. s = u @ post)"
proof -
  have "re_match r s \<noteq> None \<longleftrightarrow> runs r (Map.empty, s) \<noteq> []"
    by (auto simp: re_match_def split: list.splits)
  also have "\<dots> \<longleftrightarrow> snd ` set (runs r (Map.empty, s)) \<noteq> {}"
    by simp
  also have "\<dots> \<longleftrightarrow> (\<exists>u \<in> words r. \<exists>post. s = u @ post)"
    unfolding runs_words by blast
  finally show ?thesis .
qed

lemma re_search_iff: "re_search r s \<noteq> None \<longleftrightarrow> occurs r s"
proof (induction s)
  case Nil
  have "re_search r [] \<noteq> None \<longleftrightarrow> (\<exists>u \<in> words r. \<exists>post. [] = u @ post)"
    by (simp only: re_search.simps re_match_iff)
  then show ?case by (auto simp: occurs_def)
next
  case (Cons c cs)
  have "re_search r (c # cs) \<noteq> None \<longleftrightarrow> re_match r (c # cs) \<noteq> None \<or> re_search r cs \<noteq> None"
    by (auto split: option.splits)
  also have "\<dots> \<longleftrightarrow> (\<exists>u \<in> words r. \<exists>post. c # cs = u @ post) \<or> occurs r cs"
    by (simp only: re_match_iff Cons.IH)
  also have "\<dots> \<longleftrightarrow> occurs r (c # cs)"
  proof
    assume "(\<exists>u \<in> words r. \<exists>post. c # cs = u @ post) \<or> occurs r cs"
    then show "occurs r (c # cs)"
    proof
      assume "\<exists>u \<in> words r. \<exists>post. c # cs = u @ post"
      then obtain u post where "u \<in> words r" "c # cs = [] @ u @ post" by auto
      then show ?thesis unfolding occurs_def by blast
    next
      assume "occurs r cs"
      then obtain pre u post where "u \<in> words r" "cs = pre @ u @ post"
        unfolding occurs_def by blast
      then have "u \<in> words r" "c # cs = (c # pre) @ u @ post" by auto
      then show ?thesis unfolding occurs_def by blast
    qed
  next
    assume "occurs r (c # cs)"
    then obtain pre u post where o: "u \<in> words r" "c # cs = pre @ u @ post"
      unfolding occurs_def by blast
    show "(\<exists>u \<in> words r. \<exists>post. c # cs = u @ post) \<or> occurs r cs"
    proof (cases pre)
      case Nil
      with o show ?thesis by auto
    next
      case (Cons a pre')
      with o have "cs = pre' @ u @ post" by simp
      with o(1) show ?thesis unfolding occurs_def by blast
    qed
  qed
  finally show ?case .
qed

section \<open>The comma splitter\<close>

lemma depth_Cons: "depth (c # t) = step_depth c + depth t"
  by (simp add: depth_def step_depth_def)

lemma commas_from_Cons:
  "commas_from d (c # cs) =
     (if c = CHR '','' \<and> d = 0 then [0] else []) @ map Suc (commas_from (d + step_depth c) cs)"
proof -
  have u: "[0 ..< length (c # cs)] = 0 # map Suc [0 ..< length cs]"
    by (simp add: upt_conv_Cons map_Suc_upt del: upt_Suc)
  have d0: "depth [] = 0"
    by (simp add: depth_def)
  have "commas_from d (c # cs) =
          (if c = CHR '','' \<and> d = 0 then [0] else [])
          @ map Suc (filter (\<lambda>i. cs ! i = CHR '','' \<and> d + (step_depth c + depth (take i cs)) = 0)
                       [0 ..< length cs])"
    unfolding commas_from_def u by (simp add: filter_map o_def depth_Cons d0)
  then show ?thesis
    by (simp add: commas_from_def add.assoc)
qed

lemma segs_nonempty: "segs d s \<noteq> []"
  by (induction s arbitrary: d) (auto split: list.splits)

lemma cut_nonempty: "cut s cs \<noteq> []"
  by (simp add: cut_def)

lemma cut_Nil: "cut [] [] = [[]]"
  by (simp add: cut_def)

lemma cut_piece: "cut s cs = map (piece s) (zip (0 # map Suc cs) (cs @ [length s]))"
  by (simp add: cut_def piece_def case_prod_beta)

lemma piece_shift:
  "map (piece (c # cs)) (zip (map Suc xs) (map Suc ys)) = map (piece cs) (zip xs ys)"
  by (simp add: zip_map_map o_def case_prod_beta piece_def)

lemma cut_Cons_0: "cut (c # cs) (0 # map Suc xs) = [] # cut cs xs"
proof -
  have "cut (c # cs) (0 # map Suc xs)
        = piece (c # cs) (0, 0)
          # map (piece (c # cs)) (zip (map Suc (0 # map Suc xs)) (map Suc (xs @ [length cs])))"
    by (simp add: cut_piece)
  also have "\<dots> = [] # map (piece cs) (zip (0 # map Suc xs) (xs @ [length cs]))"
    by (simp only: piece_shift) (simp add: piece_def)
  finally show ?thesis by (simp add: cut_piece)
qed

lemma cut_Cons_Suc:
  "cut (c # cs) (map Suc xs) = (case cut cs xs of p # ps \<Rightarrow> (c # p) # ps | [] \<Rightarrow> [])"
proof (cases xs)
  case Nil
  then show ?thesis by (simp add: cut_def)
next
  case (Cons x xs')
  have "cut (c # cs) (map Suc xs)
        = piece (c # cs) (0, Suc x)
          # map (piece (c # cs)) (zip (map Suc (map Suc xs)) (map Suc (xs' @ [length cs])))"
    using Cons by (simp add: cut_piece)
  also have "\<dots> = (c # piece cs (0, x)) # map (piece cs) (zip (map Suc xs) (xs' @ [length cs]))"
    by (simp only: piece_shift) (simp add: piece_def)
  also have "\<dots> = (case cut cs xs of p # ps \<Rightarrow> (c # p) # ps | [] \<Rightarrow> [])"
    using Cons by (simp add: cut_piece)
  finally show ?thesis .
qed

lemma segs_cut: "segs d s = cut s (commas_from d s)"
proof (induction s arbitrary: d)
  case Nil
  show ?case by (simp add: commas_from_def cut_Nil)
next
  case (Cons c cs)
  show ?case
  proof (cases "c = CHR '','' \<and> d = 0")
    case True
    then have "step_depth c = 0" by (simp add: step_depth_def)
    with True have "commas_from d (c # cs) = 0 # map Suc (commas_from d cs)"
      by (simp add: commas_from_Cons)
    moreover from True have "segs d (c # cs) = [] # segs d cs" by simp
    ultimately show ?thesis by (simp add: cut_Cons_0 Cons.IH)
  next
    case False
    then have "commas_from d (c # cs) = map Suc (commas_from (d + step_depth c) cs)"
      by (simp only: commas_from_Cons if_False append_Nil)
    moreover from False have "segs d (c # cs) =
        (case segs (d + step_depth c) cs of p # ps \<Rightarrow> (c # p) # ps | [] \<Rightarrow> [])"
      by (simp only: segs.simps if_False)
    ultimately show ?thesis by (simp add: cut_Cons_Suc Cons.IH)
  qed
qed

lemma segs_pieces: "segs 0 s = pieces s"
  by (simp add: segs_cut pieces_def commas_from_def top_commas_def)

lemma split_loop_Cons:
  "split_loop parts current d (c # cs) =
     (if c = CHR '','' \<and> d = 0 then split_loop (parts @ [current]) [] d cs
      else split_loop parts (current @ [c]) (d + step_depth c) cs)"
  by (simp add: step_depth_def)

lemma split_loop_segs:
  "split_loop parts current d s =
     (parts @ butlast ((current @ hd (segs d s)) # tl (segs d s)),
      last ((current @ hd (segs d s)) # tl (segs d s)),
      d + depth s)"
proof (induction s arbitrary: parts current d)
  case Nil
  show ?case by (simp add: depth_def)
next
  case (Cons c cs)
  show ?case
  proof (cases "c = CHR '','' \<and> d = 0")
    case True
    obtain q qs where qs: "segs d cs = q # qs"
      using segs_nonempty by (cases "segs d cs") auto
    from True have sd: "step_depth c = 0" by (simp add: step_depth_def)
    from True have "split_loop parts current d (c # cs) = split_loop (parts @ [current]) [] d cs"
      by (simp add: split_loop_Cons del: split_loop.simps)
    also have "\<dots> = ((parts @ [current]) @ butlast (q # qs), last (q # qs), d + depth cs)"
      by (simp add: Cons.IH qs)
    finally have l: "split_loop parts current d (c # cs)
        = ((parts @ [current]) @ butlast (q # qs), last (q # qs), d + depth cs)" .
    from True qs have "segs d (c # cs) = [] # q # qs"
      by simp
    then show ?thesis
      unfolding l by (simp add: depth_Cons sd)
  next
    case False
    obtain p ps where ps: "segs (d + step_depth c) cs = p # ps"
      using segs_nonempty by (cases "segs (d + step_depth c) cs") auto
    from False have "split_loop parts current d (c # cs)
        = split_loop parts (current @ [c]) (d + step_depth c) cs"
      by (simp only: split_loop_Cons if_False)
    also have "\<dots> = (parts @ butlast (((current @ [c]) @ p) # ps),
                       last (((current @ [c]) @ p) # ps), d + step_depth c + depth cs)"
      by (simp add: Cons.IH ps)
    finally have l: "split_loop parts current d (c # cs)
        = (parts @ butlast (((current @ [c]) @ p) # ps),
           last (((current @ [c]) @ p) # ps), d + step_depth c + depth cs)" .
    from False have "segs d (c # cs) = (c # p) # ps"
      by (simp only: segs.simps if_False ps list.case)
    then show ?thesis
      unfolding l by (simp add: depth_Cons)
  qed
qed

lemma split_by_comma_segs:
  "split_by_comma s = (if last (segs 0 s) = [] then butlast (segs 0 s) else segs 0 s)"
proof -
  obtain p ps where ps: "segs 0 s = p # ps"
    using segs_nonempty by (cases "segs 0 s") auto
  show ?thesis
    unfolding split_by_comma_def split_loop_segs ps
    by (simp add: snoc_eq_iff_butlast)
qed

section \<open>The body between the parentheses\<close>

lemma concat_first_from_top:
  "m \<le> n \<Longrightarrow> (\<And>k. m < k \<Longrightarrow> k \<le> n \<Longrightarrow> f k = []) \<Longrightarrow>
   concat (map f (rev [0 ..< Suc n])) = f m @ concat (map f (rev [0 ..< m]))"
proof (induction n)
  case 0
  then show ?case by simp
next
  case (Suc n)
  show ?case
  proof (cases "m = Suc n")
    case True
    then show ?thesis by simp
  next
    case False
    with Suc.prems(1) have mn: "m \<le> n" by simp
    have "f (Suc n) = []" using Suc.prems(2)[of "Suc n"] mn by simp
    moreover have "concat (map f (rev [0 ..< Suc n])) = f m @ concat (map f (rev [0 ..< m]))"
      using Suc.IH[OF mn] Suc.prems(2) by simp
    ultimately show ?thesis by simp
  qed
qed

lemma runs_Chr_drop_none:
  "(\<And>c. c \<in> set t \<Longrightarrow> \<not> p c) \<Longrightarrow> runs (Chr p) (g, drop j t) = []"
proof (cases "drop j t")
  case Nil
  then show ?thesis by simp
next
  case (Cons c cs)
  assume a: "\<And>c. c \<in> set t \<Longrightarrow> \<not> p c"
  have "c \<in> set (drop j t)" using Cons by simp
  then have "c \<in> set t" by (rule in_set_dropD)
  with a Cons show ?thesis by simp
qed

lemma runs_Grp_Star_all:
  "runs (Grp n (Star (\<lambda>c. True))) (g, s) =
     map (\<lambda>k. (g(n \<mapsto> take k s), drop k s)) (rev [0 ..< Suc (length s)])"
proof -
  have tw: "takeWhile (\<lambda>c. True) s = s"
    by (induction s) simp_all
  have "runs (Grp n (Star (\<lambda>c. True))) (g, s)
        = map (\<lambda>k. (g(n \<mapsto> take (length s - length (drop k s)) s), drop k s))
            (rev [0 ..< Suc (length s)])"
    by (simp add: tw o_def del: upt_Suc length_drop)
  also have "\<dots> = map (\<lambda>k. (g(n \<mapsto> take k s), drop k s)) (rev [0 ..< Suc (length s)])"
    by (rule map_cong) (auto simp del: upt_Suc)
  finally show ?thesis .
qed

lemma runs_paren:
  assumes "CHR '')'' \<notin> set post"
  shows "\<exists>rest. runs rx_paren (g, CHR ''('' # body @ CHR '')'' # post) = (g(1 \<mapsto> body), post) # rest"
proof -
  let ?s = "body @ CHR '')'' # post"
  let ?f = "\<lambda>k. runs (Chr (\<lambda>c. c = CHR '')'')) (g(1 \<mapsto> take k ?s), drop k ?s)"
  have a: "runs (Chr (\<lambda>c. c = CHR ''('')) (g, CHR ''('' # ?s) = [(g, ?s)]"
    by simp
  have "runs rx_paren (g, CHR ''('' # ?s)
        = concat (map (runs (Chr (\<lambda>c. c = CHR '')''))) (runs (Grp 1 (Star (\<lambda>c. True))) (g, ?s)))"
    by (simp only: rx_paren_def cat.simps runs.simps(5) a list.map concat.simps append_Nil2)
  then have r: "runs rx_paren (g, CHR ''('' # ?s) = concat (map ?f (rev [0 ..< Suc (length ?s)]))"
    by (simp only: runs_Grp_Star_all map_map o_def)
  have z: "?f k = []" if "length body < k" for k
  proof -
    have "k - length body = Suc (k - Suc (length body))" using that by arith
    then have "drop k ?s = drop (k - Suc (length body)) post" using that by simp
    moreover have "runs (Chr (\<lambda>c. c = CHR '')'')) (g(1 \<mapsto> take k ?s), drop (k - Suc (length body)) post) = []"
      using assms by (intro runs_Chr_drop_none) auto
    ultimately show ?thesis by simp
  qed
  have "concat (map ?f (rev [0 ..< Suc (length ?s)]))
        = ?f (length body) @ concat (map ?f (rev [0 ..< length body]))"
    using concat_first_from_top[of "length body" "length ?s" ?f, OF _ z] by simp
  moreover have "?f (length body) = [(g(1 \<mapsto> body), post)]" by simp
  ultimately show ?thesis using r by simp
qed

lemma re_match_paren:
  assumes "CHR '')'' \<notin> set post"
  shows "\<exists>m. re_match rx_paren (CHR ''('' # body @ CHR '')'' # post) = Some m \<and> m 1 = Some body"
proof -
  obtain rest where "runs rx_paren (Map.empty, CHR ''('' # body @ CHR '')'' # post)
      = (Map.empty(1 \<mapsto> body), post) # rest"
    using runs_paren[OF assms] by blast
  then show ?thesis by (simp add: re_match_def)
qed

lemma re_match_paren_other: "CHR ''('' \<noteq> c \<Longrightarrow> re_match rx_paren (c # cs) = None"
  by (auto simp: re_match_def rx_paren_def)

lemma re_search_paren_skip:
  "CHR ''('' \<notin> set pre \<Longrightarrow> re_search rx_paren (pre @ s) = re_search rx_paren s"
  by (induction pre) (simp_all add: re_match_paren_other)

lemma table_body_first_last:
  assumes "CHR ''('' \<notin> set pre" and "CHR '')'' \<notin> set post"
  shows "table_body (pre @ ''('' @ body @ '')'' @ post) = Some body"
proof -
  obtain m where m: "re_match rx_paren (CHR ''('' # body @ CHR '')'' # post) = Some m" "m 1 = Some body"
    using re_match_paren[OF assms(2)] by blast
  have "re_search rx_paren (pre @ ''('' @ body @ '')'' @ post)
        = re_search rx_paren (CHR ''('' # body @ CHR '')'' # post)"
    using re_search_paren_skip[OF assms(1)] by simp
  also have "\<dots> = Some m" using m(1) by simp
  finally show ?thesis using m(2) by (simp add: table_body_def group_def)
qed

lemma occurs_paren:
  "occurs rx_paren s \<longleftrightarrow> (\<exists>pre body post. s = pre @ ''('' @ body @ '')'' @ post)"
proof
  assume "occurs rx_paren s"
  then obtain pre u post where u: "u \<in> words rx_paren" "s = pre @ u @ post"
    unfolding occurs_def by blast
  from u(1) obtain body where "u = ''('' @ body @ '')''"
    by (auto simp: rx_paren_def)
  with u(2) have "s = pre @ ''('' @ body @ '')'' @ post" by simp
  then show "\<exists>pre body post. s = pre @ ''('' @ body @ '')'' @ post" by blast
next
  assume "\<exists>pre body post. s = pre @ ''('' @ body @ '')'' @ post"
  then obtain pre body post where s: "s = pre @ ''('' @ body @ '')'' @ post" by blast
  have "''('' @ body @ '')'' \<in> words rx_paren"
    by (simp add: rx_paren_def)
  moreover have "s = pre @ (''('' @ body @ '')'') @ post" using s by simp
  ultimately show "occurs rx_paren s" unfolding occurs_def by blast
qed

lemma table_body_None: "table_body s = None \<longleftrightarrow> \<not> occurs rx_paren s"
  using re_search_iff[of rx_paren s] by (auto simp: table_body_def split: option.splits)

section \<open>The patterns of the parser and the clauses they describe\<close>

lemma words_keyword: "fold_case w = w \<Longrightarrow> words (Lit True w) = {u. keyword w u}"
  by (auto simp: keyword_def fold_case_def dest: arg_cong[where f = length])

lemma fold_keywords:
  "fold_case ''FOREIGN'' = ''FOREIGN''" "fold_case ''KEY'' = ''KEY''" "fold_case ''PRIMARY'' = ''PRIMARY''"
  "fold_case ''REFERENCES'' = ''REFERENCES''" "fold_case ''CONSTRAINT'' = ''CONSTRAINT''"
  by code_simp+

lemma in_words_Cat:
  "x \<in> words (Cat a b) \<longleftrightarrow> (\<exists>u v. x = u @ v \<and> u \<in> words a \<and> v \<in> words b)"
  by auto

lemma in_words_Chr: "x \<in> words (Chr p) \<longleftrightarrow> (\<exists>c. x = [c] \<and> p c)"
  by auto

lemma in_words_Star: "x \<in> words (Star is_space) \<longleftrightarrow> spaces x"
  by (simp add: spaces_def)

lemma in_words_Plus_space: "x \<in> words (Plus is_space) \<longleftrightarrow> x \<noteq> [] \<and> spaces x"
  by (simp add: spaces_def)

lemma in_words_Plus: "x \<in> words (Plus p) \<longleftrightarrow> x \<noteq> [] \<and> (\<forall>c \<in> set x. p c)"
  by simp

lemma in_words_cols: "x \<in> words (Plus (\<lambda>c. c \<noteq> CHR '')'')) \<longleftrightarrow> column_text x"
  by (auto simp: column_text_def)

lemmas words_unfold =
  in_words_Chr in_words_Star in_words_Plus_space in_words_cols
  words_keyword[OF fold_keywords(1)] words_keyword[OF fold_keywords(2)]
  words_keyword[OF fold_keywords(3)] words_keyword[OF fold_keywords(4)]
  words_keyword[OF fold_keywords(5)] mem_Collect_eq words.simps(6)
  in_words_Plus



lemma words_CatI: "a \<in> words A \<Longrightarrow> b \<in> words B \<Longrightarrow> a @ b \<in> words (Cat A B)"
  by auto

lemma words_CatE:
  "x \<in> words (Cat A B) \<Longrightarrow> (\<And>a b. x = a @ b \<Longrightarrow> a \<in> words A \<Longrightarrow> b \<in> words B \<Longrightarrow> R) \<Longrightarrow> R"
  by auto

lemma words_ChrI: "p c \<Longrightarrow> [c] \<in> words (Chr p)"
  by simp

lemma words_ChrE: "x \<in> words (Chr (\<lambda>c. c = d)) \<Longrightarrow> (x = [d] \<Longrightarrow> R) \<Longrightarrow> R"
  by auto

lemma occurs_piece:
  "(\<And>u. u \<in> words r \<longleftrightarrow> P u) \<Longrightarrow> occurs r s \<longleftrightarrow> contains_piece P s"
  unfolding occurs_def contains_piece_def by blast

lemma in_words_primary_key: "u \<in> words rx_primary_key \<longleftrightarrow> primary_key_phrase u"
proof
  assume "u \<in> words rx_primary_key"
  then show "primary_key_phrase u"
    unfolding rx_primary_key_def cat.simps primary_key_phrase_def
    apply (elim words_CatE words_ChrE)
    apply (simp only: words_unfold)
    apply (elim conjE)
    apply hypsubst
    apply (intro exI conjI, rule refl)
         apply (simp_all only: spaces_def column_text_def simp_thms)
    done
next
  assume "primary_key_phrase u"
  then show "u \<in> words rx_primary_key"
    unfolding rx_primary_key_def cat.simps primary_key_phrase_def
    apply (elim exE conjE)
    apply (simp only:)
    apply (intro words_CatI words_ChrI)
          apply (simp_all only: words_unfold spaces_def column_text_def simp_thms)
    done
qed

lemma occurs_primary_key: "occurs rx_primary_key s \<longleftrightarrow> contains_piece primary_key_phrase s"
  by (rule occurs_piece) (rule in_words_primary_key)

lemma in_words_foreign_key_cols: "u \<in> words rx_foreign_key_cols \<longleftrightarrow> foreign_key_clause u"
proof
  assume "u \<in> words rx_foreign_key_cols"
  then show "foreign_key_clause u"
    unfolding rx_foreign_key_cols_def cat.simps foreign_key_clause_def
    apply (elim words_CatE words_ChrE)
    apply (simp only: words_unfold)
    apply (elim conjE)
    apply hypsubst
    apply (intro exI conjI, rule refl)
         apply (simp_all only: spaces_def column_text_def simp_thms)
    done
next
  assume "foreign_key_clause u"
  then show "u \<in> words rx_foreign_key_cols"
    unfolding rx_foreign_key_cols_def cat.simps foreign_key_clause_def
    apply (elim exE conjE)
    apply (simp only:)
    apply (intro words_CatI words_ChrI)
          apply (simp_all only: words_unfold spaces_def column_text_def simp_thms)
    done
qed

lemma occurs_foreign_key_cols: "occurs rx_foreign_key_cols s \<longleftrightarrow> contains_piece foreign_key_clause s"
  by (rule occurs_piece) (rule in_words_foreign_key_cols)

lemma in_words_references: "u \<in> words rx_references \<longleftrightarrow> references_clause u"
proof
  assume "u \<in> words rx_references"
  then show "references_clause u"
    unfolding rx_references_def cat.simps references_clause_def
    apply (elim words_CatE words_ChrE)
    apply (simp only: words_unfold)
    apply (elim conjE)
    apply hypsubst
    apply (intro exI conjI, rule refl)
         apply (simp_all only: spaces_def column_text_def simp_thms)
    done
next
  assume "references_clause u"
  then show "u \<in> words rx_references"
    unfolding rx_references_def cat.simps references_clause_def
    apply (elim exE conjE)
    apply (simp only:)
    apply (intro words_CatI words_ChrI)
          apply (simp_all only: words_unfold spaces_def column_text_def simp_thms)
    done
qed

lemma occurs_references: "occurs rx_references s \<longleftrightarrow> contains_piece references_clause s"
  by (rule occurs_piece) (rule in_words_references)

lemma in_words_constraint_name: "u \<in> words rx_constraint_name \<longleftrightarrow> constraint_name u"
proof
  assume "u \<in> words rx_constraint_name"
  then show "constraint_name u"
    unfolding rx_constraint_name_def cat.simps constraint_name_def
    apply (elim words_CatE words_ChrE)
    apply (simp only: words_unfold)
    apply (elim conjE)
    apply hypsubst
    apply (intro exI conjI, rule refl)
         apply (simp_all only: spaces_def column_text_def simp_thms)
    done
next
  assume "constraint_name u"
  then show "u \<in> words rx_constraint_name"
    unfolding rx_constraint_name_def cat.simps constraint_name_def
    apply (elim exE conjE)
    apply (simp only:)
    apply (intro words_CatI words_ChrI)
          apply (simp_all only: words_unfold spaces_def column_text_def simp_thms)
    done
qed

lemma occurs_constraint_name: "occurs rx_constraint_name s \<longleftrightarrow> contains_piece constraint_name s"
  by (rule occurs_piece) (rule in_words_constraint_name)

section \<open>Matches that need no backtracking\<close>

lemma first_run_Cat: "first_run a st x \<Longrightarrow> first_run b x y \<Longrightarrow> first_run (Cat a b) st y"
  by (auto simp: first_run_def)

lemma first_run_Chr: "p c \<Longrightarrow> first_run (Chr p) (g, c # s) (g, s)"
  by (simp add: first_run_def)

lemma first_run_keyword:
  assumes "keyword w k" and "fold_case w = w"
  shows "first_run (Lit True w) (g, k @ s) (g, s)"
proof -
  have "length k = length w" using assms(1) by (auto simp: keyword_def fold_case_def dest: arg_cong[where f = length])
  then have "lit_matches True w (k @ s)" "drop (length w) (k @ s) = s"
    using assms by (simp_all add: lit_matches_def keyword_def)
  then show ?thesis by (simp add: first_run_def)
qed

lemma takeWhile_stop:
  "\<forall>c \<in> set u. p c \<Longrightarrow> s = [] \<or> \<not> p (hd s) \<Longrightarrow> takeWhile p (u @ s) = u"
  by (cases s) (simp_all add: takeWhile_tail)

lemma first_run_Star:
  assumes "\<forall>c \<in> set u. p c" and "s = [] \<or> \<not> p (hd s)"
  shows "first_run (Star p) (g, u @ s) (g, s)"
proof -
  have "takeWhile p (u @ s) = u" using assms by (rule takeWhile_stop)
  then have "runs (Star p) (g, u @ s)
             = (g, s) # map (\<lambda>k. (g, drop k (u @ s))) (rev [0 ..< length u])"
    by simp
  then show ?thesis unfolding first_run_def by blast
qed

lemma first_run_Plus:
  assumes "u \<noteq> []" and "\<forall>c \<in> set u. p c" and "s = [] \<or> \<not> p (hd s)"
  shows "first_run (Plus p) (g, u @ s) (g, s)"
proof -
  have t: "takeWhile p (u @ s) = u" using assms(2,3) by (rule takeWhile_stop)
  have "[1 ..< Suc (length u)] = [1 ..< length u] @ [length u]"
    using assms(1) by (cases u) simp_all
  then have "runs (Plus p) (g, u @ s)
             = (g, s) # map (\<lambda>k. (g, drop k (u @ s))) (rev [1 ..< length u])"
    by (simp add: t del: upt_Suc)
  then show ?thesis unfolding first_run_def by blast
qed

lemma first_run_Grp:
  "first_run r (g, u @ s) (g', s) \<Longrightarrow> first_run (Grp n r) (g, u @ s) (g'(n \<mapsto> u), s)"
  by (auto simp: first_run_def)

lemma re_match_first_run:
  "first_run r (Map.empty, u @ s) (g, s) \<Longrightarrow> re_match r (u @ s) = Some (g(0 \<mapsto> u))"
  by (auto simp: first_run_def re_match_def)

lemma re_search_at_start: "re_match r s = Some m \<Longrightarrow> re_search r s = Some m"
  by (cases s) simp_all

lemma is_space_fold: "is_space c \<Longrightarrow> fold_char c = c"
  by (auto simp: is_space_def fold_char_def Let_def)

lemma keyword_head:
  assumes "keyword (c0 # w) k" and "\<not> is_space c0"
  shows "k \<noteq> [] \<and> \<not> is_space (hd k)"
proof -
  from assms(1) obtain c k' where k: "k = c # k'" "fold_char c = c0"
    by (cases k) (auto simp: keyword_def fold_case_def)
  with assms(2) have "\<not> is_space c" using is_space_fold[of c] by auto
  with k show ?thesis by simp
qed

lemma first_run_primary_key_cols:
  assumes "keyword ''PRIMARY'' k1" "ws \<noteq> []" "spaces ws" "keyword ''KEY'' k2" "spaces ws2"
    "column_text cols"
  shows "first_run rx_primary_key_cols
           (g, (k1 @ ws @ k2 @ ws2 @ ''('' @ cols @ '')'') @ post) (g(1 \<mapsto> cols), post)"
proof -
  have nsK: "\<not> is_space CHR ''K''" by code_simp
  have nsP: "\<not> is_space CHR ''(''" by code_simp
  have k2: "k2 @ ws2 @ ''('' @ cols @ '')'' @ post = [] \<or> \<not> is_space (hd (k2 @ ws2 @ ''('' @ cols @ '')'' @ post))"
    using keyword_head[OF assms(4) nsK] by simp
  have a1: "first_run (Lit True ''PRIMARY'') (g, k1 @ ws @ k2 @ ws2 @ ''('' @ cols @ '')'' @ post)
             (g, ws @ k2 @ ws2 @ ''('' @ cols @ '')'' @ post)"
    using assms(1) by (intro first_run_keyword) (simp_all add: fold_keywords)
  have a2: "first_run (Plus is_space) (g, ws @ k2 @ ws2 @ ''('' @ cols @ '')'' @ post)
             (g, k2 @ ws2 @ ''('' @ cols @ '')'' @ post)"
    using assms(2,3) k2 by (intro first_run_Plus) (simp_all add: spaces_def)
  have a3: "first_run (Lit True ''KEY'') (g, k2 @ ws2 @ ''('' @ cols @ '')'' @ post)
             (g, ws2 @ ''('' @ cols @ '')'' @ post)"
    using assms(4) by (intro first_run_keyword) (simp_all add: fold_keywords)
  have a4: "first_run (Star is_space) (g, ws2 @ ''('' @ cols @ '')'' @ post)
             (g, ''('' @ cols @ '')'' @ post)"
    using assms(5) nsP by (intro first_run_Star) (simp_all add: spaces_def)
  have a5: "first_run (Chr (\<lambda>c. c = CHR ''('')) (g, ''('' @ cols @ '')'' @ post)
             (g, cols @ '')'' @ post)"
    using first_run_Chr[of "\<lambda>c. c = CHR ''(''" "CHR ''(''" g "cols @ '')'' @ post"] by simp
  have "first_run (Plus (\<lambda>c. c \<noteq> CHR '')'')) (g, cols @ '')'' @ post) (g, '')'' @ post)"
    using assms(6) by (intro first_run_Plus) (auto simp: column_text_def)
  then have a6: "first_run (Grp 1 (Plus (\<lambda>c. c \<noteq> CHR '')''))) (g, cols @ '')'' @ post)
             (g(1 \<mapsto> cols), '')'' @ post)"
    by (rule first_run_Grp)
  have a7: "first_run (Chr (\<lambda>c. c = CHR '')'')) (g(1 \<mapsto> cols), '')'' @ post) (g(1 \<mapsto> cols), post)"
    using first_run_Chr[of "\<lambda>c. c = CHR '')''" "CHR '')''" "g(1 \<mapsto> cols)" post] by simp
  show ?thesis
    unfolding rx_primary_key_cols_def cat.simps append_assoc
    by (intro first_run_Cat[OF a1] first_run_Cat[OF a2] first_run_Cat[OF a3]
              first_run_Cat[OF a4] first_run_Cat[OF a5] first_run_Cat[OF a6] a7)
qed

section \<open>The foreign-key clause parser and the clause loop\<close>

lemma parse_foreign_key_None:
  "parse_foreign_key fd = None \<longleftrightarrow>
     \<not> contains_piece foreign_key_clause fd \<or> \<not> contains_piece references_clause fd"
proof -
  have "parse_foreign_key fd = None \<longleftrightarrow>
          re_search rx_foreign_key_cols fd = None \<or> re_search rx_references fd = None"
    by (simp add: parse_foreign_key_def Let_def split: option.splits)
  then show ?thesis
    using re_search_iff[of rx_foreign_key_cols fd] re_search_iff[of rx_references fd]
    by (auto simp: occurs_foreign_key_cols occurs_references)
qed

lemma parse_foreign_key_unnamed:
  assumes "parse_foreign_key fd = Some fk" and "\<not> contains_piece constraint_name fd"
  shows "fk_name fk = ''fk_'' @ ref_table fk @ ''_'' @ join ''_'' (fk_columns fk)"
proof -
  have "re_search rx_constraint_name fd = None"
    using assms(2) re_search_iff[of rx_constraint_name fd]
    by (auto simp: occurs_constraint_name)
  with assms(1) show ?thesis
    by (auto simp: parse_foreign_key_def Let_def split: option.splits)
qed

lemma parse_part_skip:
  assumes "re_match rx_primary_key (strip part) = None"
    and "re_match rx_foreign_key (strip part) \<noteq> None \<or> re_match rx_constraint (strip part) \<noteq> None"
    and "parse_foreign_key (strip part) = None"
  shows "parse_part acc part = acc"
  using assms by (auto simp: parse_part_def Let_def)

lemma re_match_begins:
  "(\<And>u. u \<in> words r \<longleftrightarrow> P u) \<Longrightarrow> re_match r s \<noteq> None \<longleftrightarrow> begins P s"
  unfolding re_match_iff begins_def by blast

lemma in_words_foreign_key: "u \<in> words rx_foreign_key \<longleftrightarrow> foreign_key_words u"
proof
  assume "u \<in> words rx_foreign_key"
  then show "foreign_key_words u"
    unfolding rx_foreign_key_def cat.simps foreign_key_words_def
    apply (elim words_CatE words_ChrE)
    apply (simp only: words_unfold)
    apply (elim conjE)
    apply hypsubst
    apply (intro exI conjI, rule refl)
       apply (simp_all only: spaces_def simp_thms)
    done
next
  assume "foreign_key_words u"
  then show "u \<in> words rx_foreign_key"
    unfolding rx_foreign_key_def cat.simps foreign_key_words_def
    apply (elim exE conjE)
    apply (simp only:)
    apply (intro words_CatI words_ChrI)
      apply (simp_all only: words_unfold spaces_def simp_thms)
    done
qed

lemma in_words_constraint: "u \<in> words rx_constraint \<longleftrightarrow> keyword ''CONSTRAINT'' u"
  unfolding rx_constraint_def by (simp only: words_keyword[OF fold_keywords(5)] mem_Collect_eq)

lemma handed_to_foreign_key_parser_iff:
  "handed_to_foreign_key_parser part \<longleftrightarrow>
     re_match rx_primary_key part = None
     \<and> (re_match rx_foreign_key part \<noteq> None \<or> re_match rx_constraint part \<noteq> None)"
  using re_match_begins[of rx_primary_key primary_key_phrase part, OF in_words_primary_key]
        re_match_begins[of rx_foreign_key foreign_key_words part, OF in_words_foreign_key]
        re_match_begins[of rx_constraint "keyword ''CONSTRAINT''" part, OF in_words_constraint]
  unfolding handed_to_foreign_key_parser_def by blast

section \<open>The column definition parser\<close>

lemma dropWhile_keeps_piece:
  "u \<noteq> [] \<Longrightarrow> \<not> p (hd u) \<Longrightarrow> \<exists>pre'. dropWhile p (pre @ u @ post) = pre' @ u @ post"
proof (induction pre)
  case Nil
  then have "dropWhile p (u @ post) = u @ post" by (cases u) simp_all
  then show ?case by (metis append_Nil)
next
  case (Cons a pre)
  show ?case
  proof (cases "p a")
    case True
    then show ?thesis using Cons by simp
  next
    case False
    then have "dropWhile p ((a # pre) @ u @ post) = (a # pre) @ u @ post" by simp
    then show ?thesis by blast
  qed
qed

lemma strip_with_keeps_piece:
  assumes "u \<noteq> []" "\<not> p (hd u)" "\<not> p (last u)"
  shows "\<exists>pre' post'. strip_with p (pre @ u @ post) = pre' @ u @ post'"
proof -
  obtain pre' where a: "dropWhile p (pre @ u @ post) = pre' @ u @ post"
    using dropWhile_keeps_piece[of u p pre post] assms(1,2) by blast
  have "rev u \<noteq> []" "\<not> p (hd (rev u))"
    using assms(1,3) by (simp_all add: hd_rev)
  then obtain post' where "dropWhile p (rev post @ rev u @ rev pre') = post' @ rev u @ rev pre'"
    using dropWhile_keeps_piece[of "rev u" p "rev post" "rev pre'"] by blast
  then have "strip_with p (pre @ u @ post) = pre' @ u @ rev post'"
    by (simp add: strip_with_def a)
  then show ?thesis by blast
qed

lemma strip_with_is_piece: "\<exists>a b. s = a @ strip_with p s @ b"
proof -
  let ?d = "dropWhile p s"
  have "rev ?d = takeWhile p (rev ?d) @ dropWhile p (rev ?d)" by simp
  then have "?d = rev (dropWhile p (rev ?d)) @ rev (takeWhile p (rev ?d))"
    by (metis rev_append rev_rev_ident)
  then have "s = takeWhile p s @ strip_with p s @ rev (takeWhile p (rev ?d))"
    by (metis strip_with_def takeWhile_dropWhile_id)
  then show ?thesis by blast
qed

lemma keyword_last:
  assumes "keyword (w @ [c0]) k" and "\<not> is_space c0"
  shows "k \<noteq> [] \<and> \<not> is_space (last k)"
proof -
  from assms(1) have "fold_case k = w @ [c0]" by (simp add: keyword_def)
  then have ne: "k \<noteq> []" and "last (fold_case k) = c0" by (auto simp: fold_case_def)
  then have "fold_char (last k) = c0" by (simp add: fold_case_def last_map)
  with assms(2) have "\<not> is_space (last k)" using is_space_fold[of "last k"] by auto
  with ne show ?thesis by simp
qed

lemma primary_key_phrase_ends:
  assumes "primary_key_phrase u"
  shows "u \<noteq> [] \<and> \<not> is_space (hd u) \<and> \<not> is_space (last u)"
proof -
  from assms obtain k1 ws k2 where u: "u = k1 @ ws @ k2" "keyword ''PRIMARY'' k1" "keyword ''KEY'' k2"
    unfolding primary_key_phrase_def by blast
  have "\<not> is_space CHR ''P''" "\<not> is_space CHR ''Y''" by code_simp+
  then have "k1 \<noteq> [] \<and> \<not> is_space (hd k1)" "k2 \<noteq> [] \<and> \<not> is_space (last k2)"
    using keyword_head[of "CHR ''P''" "''RIMARY''" k1] keyword_last[of "''KE''" "CHR ''Y''" k2] u
    by simp_all
  with u(1) show ?thesis by simp
qed

lemma contains_phrase_strip:
  "contains_piece primary_key_phrase (strip s) \<longleftrightarrow> contains_piece primary_key_phrase s"
proof
  assume "contains_piece primary_key_phrase (strip s)"
  then obtain pre u post where u: "strip s = pre @ u @ post" "primary_key_phrase u"
    unfolding contains_piece_def by blast
  obtain a b where "s = a @ strip s @ b"
    using strip_with_is_piece[of s is_space] unfolding strip_def by blast
  with u(1) have "s = (a @ pre) @ u @ (post @ b)" by simp
  with u(2) show "contains_piece primary_key_phrase s"
    unfolding contains_piece_def by blast
next
  assume "contains_piece primary_key_phrase s"
  then obtain pre u post where u: "s = pre @ u @ post" "primary_key_phrase u"
    unfolding contains_piece_def by blast
  from primary_key_phrase_ends[OF u(2)]
  obtain pre' post' where "strip_with is_space (pre @ u @ post) = pre' @ u @ post'"
    using strip_with_keeps_piece[of u is_space pre post] by blast
  with u show "contains_piece primary_key_phrase (strip s)"
    unfolding contains_piece_def strip_def by blast
qed

lemma split_ws_0: "split_ws 0 s = (if dropWhile is_space s = [] then [] else [dropWhile is_space s])"
  by (simp add: split_ws.simps[of 0 s] Let_def)

lemma split_ws_Suc:
  "split_ws (Suc m) s =
     (let t = dropWhile is_space s in
      if t = [] then []
      else takeWhile (\<lambda>c. \<not> is_space c) t # split_ws m (dropWhile (\<lambda>c. \<not> is_space c) t))"
  by (simp add: split_ws.simps[of "Suc m" s] Let_def)

lemma split_ws_Suc_Cons: "split_ws (Suc m) s = x # xs \<Longrightarrow> \<exists>s'. split_ws m s' = xs"
  by (auto simp: split_ws_Suc Let_def split: if_splits)

lemma split_ws_0_single: "split_ws 0 s = [r] \<Longrightarrow> r \<noteq> [] \<and> \<not> is_space (hd r)"
proof -
  assume a: "split_ws 0 s = [r]"
  then have ne: "dropWhile is_space s \<noteq> []"
    by (auto simp: split_ws_0 split: if_splits)
  from a have r: "r = dropWhile is_space s"
    by (auto simp: split_ws_0 split: if_splits)
  with ne show ?thesis using hd_dropWhile[of is_space s] by simp
qed

lemma split_ws_third:
  assumes "split_ws 2 cd = [n, t, r]"
  shows "r \<noteq> [] \<and> \<not> is_space (hd r)"
proof -
  have two: "(2::nat) = Suc (Suc 0)" by simp
  from assms obtain s1 where "split_ws (Suc 0) s1 = [t, r]"
    unfolding two using split_ws_Suc_Cons[of "Suc 0" cd n "[t, r]"] by blast
  then obtain s2 where "split_ws 0 s2 = [r]"
    using split_ws_Suc_Cons[of 0 s1 t "[r]"] by blast
  then show ?thesis by (rule split_ws_0_single)
qed

lemma strip_nonempty: "r \<noteq> [] \<Longrightarrow> \<not> is_space (hd r) \<Longrightarrow> strip r \<noteq> []"
  by (cases r) (auto simp: strip_def strip_with_def)


section \<open>Trimming and unquoting\<close>

lemma strip_with_stripped_of: "stripped_of p s (strip_with p s)"
proof -
  let ?d = "dropWhile p s"
  let ?t = "strip_with p s"
  have t: "?t = rev (dropWhile p (rev ?d))" by (simp add: strip_with_def)
  have "rev ?d = takeWhile p (rev ?d) @ dropWhile p (rev ?d)" by simp
  then have d: "?d = ?t @ rev (takeWhile p (rev ?d))"
    unfolding t by (metis rev_append rev_rev_ident)
  have s: "s = takeWhile p s @ ?t @ rev (takeWhile p (rev ?d))"
    using d by (metis takeWhile_dropWhile_id)
  have l: "\<forall>c \<in> set (takeWhile p s). p c" by (auto dest: set_takeWhileD)
  have r: "\<forall>c \<in> set (rev (takeWhile p (rev ?d))). p c" by (auto dest: set_takeWhileD)
  have e: "\<not> p (hd ?t) \<and> \<not> p (last ?t)" if ne: "?t \<noteq> []"
  proof -
    from ne have dn: "dropWhile p (rev ?d) \<noteq> []" by (simp add: t)
    have "last ?t = hd (dropWhile p (rev ?d))"
      unfolding t using dn by (simp add: last_rev)
    then have a: "\<not> p (last ?t)" using hd_dropWhile[OF dn] by simp
    have "?d \<noteq> []"
    proof
      assume "?d = []"
      then have "dropWhile p (rev ?d) = []" by (auto dest: set_dropWhileD)
      with dn show False by simp
    qed
    then have "\<not> p (hd ?d)" by (rule hd_dropWhile)
    moreover have "hd ?d = hd ?t" using d ne by (metis hd_append2)
    ultimately show ?thesis using a by simp
  qed
  show ?thesis
    unfolding stripped_of_def using s l r e by blast
qed

lemma dropWhile_all: "\<forall>c \<in> set l. p c \<Longrightarrow> dropWhile p (l @ s) = dropWhile p s"
  by (induction l) auto

lemma dropWhile_stop: "t \<noteq> [] \<Longrightarrow> \<not> p (hd t) \<Longrightarrow> dropWhile p (t @ r) = t @ r"
  by (cases t) auto

lemma stripped_of_unique:
  assumes "stripped_of p s t"
  shows "strip_with p s = t"
proof -
  from assms obtain l r where s: "s = l @ t @ r" and l: "\<forall>c \<in> set l. p c"
      and r: "\<forall>c \<in> set r. p c" and e: "t = [] \<or> (\<not> p (hd t) \<and> \<not> p (last t))"
    unfolding stripped_of_def by blast
  show ?thesis
  proof (cases "t = []")
    case True
    with s l r have "\<forall>c \<in> set s. p c" by auto
    then have "strip_with p s = []" by (auto simp: strip_with_def dest: set_dropWhileD)
    with True show ?thesis by simp
  next
    case False
    with e have h: "\<not> p (hd t)" "\<not> p (last t)" by simp_all
    have "dropWhile p s = t @ r"
      unfolding s using l h(1) False by (simp add: dropWhile_all dropWhile_stop)
    moreover have "dropWhile p (rev r @ rev t) = rev t"
    proof -
      have "\<forall>c \<in> set (rev r). p c" using r by simp
      then have "dropWhile p (rev r @ rev t) = dropWhile p (rev t)" by (rule dropWhile_all)
      moreover have "rev t \<noteq> []" "\<not> p (hd (rev t))" using False h(2) by (simp_all add: hd_rev)
      then have "dropWhile p (rev t @ []) = rev t @ []" by (rule dropWhile_stop)
      ultimately show ?thesis by simp
    qed
    ultimately show ?thesis by (simp add: strip_with_def)
  qed
qed

lemma strip_trimmed: "trimmed s t \<longleftrightarrow> t = strip s"
  unfolding trimmed_def strip_def using strip_with_stripped_of stripped_of_unique by blast

lemma quote_chars_is_quote: "(c \<in> quote_chars) = is_quote c"
  by (auto simp: quote_chars_def is_quote_def)

lemma strip_quotes_unquoted: "unquoted s t \<longleftrightarrow> t = strip_quotes s"
  unfolding unquoted_def strip_quotes_def quote_chars_is_quote
  using strip_with_stripped_of stripped_of_unique by blast

section \<open>Removing the phrase PRIMARY KEY\<close>

lemma re_sub_Nil: "re_sub r [] = []"
  by (subst re_sub.simps) (auto split: list.splits)

lemma re_sub_no_run: "runs r (Map.empty, c # cs) = [] \<Longrightarrow> re_sub r (c # cs) = c # re_sub r cs"
  by (subst re_sub.simps) simp

lemma re_sub_first_run:
  assumes "first_run r (Map.empty, u @ post) (g, post)" and "u \<noteq> []"
  shows "re_sub r (u @ post) = re_sub r post"
proof -
  from assms(1) obtain rest where "runs r (Map.empty, u @ post) = (g, post) # rest"
    unfolding first_run_def by blast
  moreover have "length post < length (u @ post)" using assms(2) by simp
  ultimately show ?thesis
    by (subst re_sub.simps) simp
qed

lemma first_run_primary_key:
  assumes "primary_key_phrase u"
  shows "first_run rx_primary_key (g, u @ post) (g, post)"
proof -
  from assms obtain k1 ws k2 where u: "u = k1 @ ws @ k2" "keyword ''PRIMARY'' k1" "ws \<noteq> []"
      "spaces ws" "keyword ''KEY'' k2"
    unfolding primary_key_phrase_def by blast
  have nsK: "\<not> is_space CHR ''K''" by code_simp
  have k2: "k2 @ post = [] \<or> \<not> is_space (hd (k2 @ post))"
    using keyword_head[OF u(5) nsK] by simp
  have a1: "first_run (Lit True ''PRIMARY'') (g, k1 @ ws @ k2 @ post) (g, ws @ k2 @ post)"
    using u(2) by (intro first_run_keyword) (simp_all add: fold_keywords)
  have a2: "first_run (Plus is_space) (g, ws @ k2 @ post) (g, k2 @ post)"
    using u(3,4) k2 by (intro first_run_Plus) (simp_all add: spaces_def)
  have a3: "first_run (Lit True ''KEY'') (g, k2 @ post) (g, post)"
    using u(5) by (intro first_run_keyword) (simp_all add: fold_keywords)
  show ?thesis
    unfolding rx_primary_key_def cat.simps u(1) append_assoc
    by (intro first_run_Cat[OF a1] first_run_Cat[OF a2] a3)
qed

lemma runs_primary_key_phrase:
  assumes "runs rx_primary_key (g, s) = (g', s') # rest"
  shows "\<exists>u. primary_key_phrase u \<and> s = u @ s'"
proof -
  have "s' \<in> snd ` set (runs rx_primary_key (g, s))"
    unfolding assms by simp
  then obtain u where "u \<in> words rx_primary_key" "s = u @ s'"
    unfolding runs_words by blast
  then show ?thesis using in_words_primary_key by blast
qed

lemma runs_primary_key_Nil:
  assumes "\<not> begins primary_key_phrase s"
  shows "runs rx_primary_key (g, s) = []"
proof (cases "runs rx_primary_key (g, s)")
  case Nil
  then show ?thesis .
next
  case (Cons y ys)
  obtain g' s' where "y = (g', s')" by (cases y)
  with Cons obtain u where "primary_key_phrase u" "s = u @ s'"
    using runs_primary_key_phrase by blast
  with assms show ?thesis unfolding begins_def by blast
qed

lemma phrase_folded:
  assumes "primary_key_phrase u"
  shows "\<exists>ws. spaces ws \<and> map fold_char u = ''PRIMARY'' @ ws @ ''KEY''"
proof -
  from assms obtain k1 ws k2 where u: "u = k1 @ ws @ k2" "keyword ''PRIMARY'' k1" "spaces ws"
      "keyword ''KEY'' k2"
    unfolding primary_key_phrase_def by blast
  have "map fold_char ws = ws"
    using u(3) by (simp add: spaces_def is_space_fold map_idI)
  with u(1,2,4) have "map fold_char u = ''PRIMARY'' @ ws @ ''KEY''"
    by (simp add: keyword_def fold_case_def)
  with u(3) show ?thesis by blast
qed

lemma phrase_letter_p:
  assumes "primary_key_phrase u"
  shows "u \<noteq> [] \<and> fold_char (hd u) = CHR ''P''
         \<and> (\<forall>i. 0 < i \<and> i < length u \<longrightarrow> fold_char (u ! i) \<noteq> CHR ''P'')"
proof -
  from phrase_folded[OF assms] obtain ws where ws: "spaces ws"
      and m: "map fold_char u = ''PRIMARY'' @ ws @ ''KEY''"
    by blast
  from m have ne: "u \<noteq> []" by auto
  from m ne have h: "fold_char (hd u) = CHR ''P''"
    by (cases u) simp_all
  have "\<not> is_space CHR ''P''" by code_simp
  with ws have p: "CHR ''P'' \<notin> set ws" unfolding spaces_def by blast
  have t: "fold_char (u ! i) \<noteq> CHR ''P''" if i: "0 < i" "i < length u" for i
  proof -
    obtain j where j: "i = Suc j" using i(1) by (cases i) simp_all
    have "fold_char (u ! i) = (map fold_char u) ! i" using i(2) by simp
    also have "\<dots> = (''RIMARY'' @ ws @ ''KEY'') ! j" unfolding m j by simp
    finally have "fold_char (u ! i) \<in> set (''RIMARY'' @ ws @ ''KEY'')"
      using i(2) j m by (metis length_map length_Cons Suc_less_eq nth_mem append_Cons)
    with p show ?thesis by auto
  qed
  from ne h t show ?thesis by blast
qed

lemma phrase_overlap:
  assumes w: "primary_key_phrase w" and u: "primary_key_phrase u" and p: "p \<noteq> []"
    and e: "p @ u @ rest = w @ b"
  shows "contains_piece primary_key_phrase p"
proof (cases "length w \<le> length p")
  case True
  with e have "p = w @ drop (length w) p"
    by (metis append_eq_append_conv_if append_take_drop_id)
  then have "p = [] @ w @ drop (length w) p" by simp
  with w show ?thesis unfolding contains_piece_def by blast
next
  case False
  then have l: "length p < length w" by simp
  have "(p @ u @ rest) ! length p = hd u"
    using phrase_letter_p[OF u] by (simp add: nth_append hd_conv_nth)
  moreover have "(w @ b) ! length p = w ! length p"
    using l by (simp add: nth_append)
  ultimately have "w ! length p = hd u" using e by simp
  moreover have "0 < length p" using p by simp
  ultimately show ?thesis
    using phrase_letter_p[OF w] phrase_letter_p[OF u] l by metis
qed

lemma contains_piece_Cons:
  "contains_piece P (c # s) \<longleftrightarrow> begins P (c # s) \<or> contains_piece P s"
proof
  assume "contains_piece P (c # s)"
  then obtain pre u post where a: "c # s = pre @ u @ post" "P u"
    unfolding contains_piece_def by blast
  show "begins P (c # s) \<or> contains_piece P s"
  proof (cases pre)
    case Nil
    with a show ?thesis unfolding begins_def by auto
  next
    case (Cons x pre')
    with a have "s = pre' @ u @ post" by simp
    with a(2) show ?thesis unfolding contains_piece_def by blast
  qed
next
  assume "begins P (c # s) \<or> contains_piece P s"
  then show "contains_piece P (c # s)"
  proof
    assume "begins P (c # s)"
    then obtain u post where "c # s = [] @ u @ post" "P u"
      unfolding begins_def by auto
    then show ?thesis unfolding contains_piece_def by blast
  next
    assume "contains_piece P s"
    then obtain pre u post where "s = pre @ u @ post" "P u"
      unfolding contains_piece_def by blast
    then have "c # s = (c # pre) @ u @ post" "P u" by simp_all
    then show ?thesis unfolding contains_piece_def by blast
  qed
qed

lemma re_sub_no_phrase:
  "\<not> contains_piece primary_key_phrase s \<Longrightarrow> re_sub rx_primary_key s = s"
proof (induction s)
  case Nil
  show ?case by (rule re_sub_Nil)
next
  case (Cons c s)
  from Cons.prems have b: "\<not> begins primary_key_phrase (c # s)"
      and n: "\<not> contains_piece primary_key_phrase s"
    by (simp_all add: contains_piece_Cons)
  have "runs rx_primary_key (Map.empty, c # s) = []"
    using b by (rule runs_primary_key_Nil)
  then have "re_sub rx_primary_key (c # s) = c # re_sub rx_primary_key s"
    by (rule re_sub_no_run)
  with Cons.IH[OF n] show ?case by simp
qed

lemma re_sub_before_phrase:
  assumes "primary_key_phrase u"
  shows "\<not> contains_piece primary_key_phrase pre \<Longrightarrow>
         re_sub rx_primary_key (pre @ u @ post) = pre @ re_sub rx_primary_key post"
proof (induction pre)
  case Nil
  have "u \<noteq> []" using phrase_letter_p[OF assms] by simp
  then have "re_sub rx_primary_key (u @ post) = re_sub rx_primary_key post"
    using first_run_primary_key[OF assms, of Map.empty post] by (intro re_sub_first_run)
  then show ?case by simp
next
  case (Cons c pre)
  from Cons.prems have n: "\<not> contains_piece primary_key_phrase pre"
    by (simp add: contains_piece_Cons)
  have "\<not> begins primary_key_phrase ((c # pre) @ u @ post)"
  proof
    assume "begins primary_key_phrase ((c # pre) @ u @ post)"
    then obtain w b where "(c # pre) @ u @ post = w @ b" "primary_key_phrase w"
      unfolding begins_def by blast
    then have "contains_piece primary_key_phrase (c # pre)"
      using phrase_overlap[of w u "c # pre" post b] assms by simp
    with Cons.prems show False by simp
  qed
  then have "runs rx_primary_key (Map.empty, c # pre @ u @ post) = []"
    using runs_primary_key_Nil by simp
  then have "re_sub rx_primary_key (c # pre @ u @ post)
             = c # re_sub rx_primary_key (pre @ u @ post)"
    by (rule re_sub_no_run)
  with Cons.IH[OF n] show ?case by simp
qed

lemma phrases_removed_re_sub: "phrases_removed s t \<Longrightarrow> t = re_sub rx_primary_key s"
proof (induction rule: phrases_removed.induct)
  case (none s)
  then show ?case by (simp add: re_sub_no_phrase)
next
  case (one pre u post post')
  then show ?case by (simp add: re_sub_before_phrase)
qed

lemma phrases_removed_Cons:
  assumes "phrases_removed s t" and "\<not> begins primary_key_phrase (c # s)"
  shows "phrases_removed (c # s) (c # t)"
  using assms(1)
proof (cases rule: phrases_removed.cases)
  case none
  with assms(2) have "\<not> contains_piece primary_key_phrase (c # s)"
    by (simp add: contains_piece_Cons)
  with none show ?thesis by (simp add: phrases_removed.none)
next
  case (one pre u post post')
  have "\<not> begins primary_key_phrase (c # pre)"
  proof
    assume "begins primary_key_phrase (c # pre)"
    then obtain w b where "c # pre = w @ b" "primary_key_phrase w"
      unfolding begins_def by blast
    then have "c # s = w @ (b @ u @ post)" "primary_key_phrase w"
      using one(1) by simp_all
    with assms(2) show False unfolding begins_def by blast
  qed
  with one(3) have "\<not> contains_piece primary_key_phrase (c # pre)"
    by (simp add: contains_piece_Cons)
  then have "phrases_removed ((c # pre) @ u @ post) ((c # pre) @ post')"
    using one(4,5) by (rule phrases_removed.one)
  with one(1,2) show ?thesis by simp
qed

lemma no_phrase_Nil: "\<not> contains_piece primary_key_phrase []"
  unfolding contains_piece_def using phrase_letter_p by auto

lemma re_sub_phrases_removed: "phrases_removed s (re_sub rx_primary_key s)"
proof (induction s rule: length_induct)
  case (1 s)
  show ?case
  proof (cases "runs rx_primary_key (Map.empty, s)")
    case Nil
    show ?thesis
    proof (cases s)
      case Nil
      then show ?thesis
        by (simp add: re_sub_Nil phrases_removed.none no_phrase_Nil)
    next
      case (Cons c cs)
      have n: "\<not> begins primary_key_phrase (c # cs)"
      proof
        assume "begins primary_key_phrase (c # cs)"
        then have "re_match rx_primary_key (c # cs) \<noteq> None"
          using re_match_begins[of rx_primary_key primary_key_phrase, OF in_words_primary_key]
          by blast
        with \<open>runs rx_primary_key (Map.empty, s) = []\<close> Cons show False
          by (simp add: re_match_def)
      qed
      have "phrases_removed cs (re_sub rx_primary_key cs)"
        using 1 Cons by simp
      then have "phrases_removed (c # cs) (c # re_sub rx_primary_key cs)"
        using n by (rule phrases_removed_Cons)
      moreover have "re_sub rx_primary_key (c # cs) = c # re_sub rx_primary_key cs"
        using \<open>runs rx_primary_key (Map.empty, s) = []\<close> Cons by (intro re_sub_no_run) simp
      ultimately show ?thesis using Cons by simp
    qed
  next
    case (Cons y ys)
    obtain g' s' where y: "y = (g', s')" by (cases y)
    with Cons obtain u where u: "primary_key_phrase u" "s = u @ s'"
      using runs_primary_key_phrase by blast
    have ne: "u \<noteq> []" using phrase_letter_p[OF u(1)] by simp
    then have "length s' < length s" using u(2) by simp
    then have "phrases_removed s' (re_sub rx_primary_key s')" using 1 by simp
    then have "phrases_removed ([] @ u @ s') ([] @ re_sub rx_primary_key s')"
      using no_phrase_Nil u(1) by (intro phrases_removed.one)
    moreover have "re_sub rx_primary_key (u @ s') = re_sub rx_primary_key s'"
      using first_run_primary_key[OF u(1), of Map.empty s'] ne by (intro re_sub_first_run)
    ultimately show ?thesis using u(2) by simp
  qed
qed

lemma phrases_removed_iff: "phrases_removed s t \<longleftrightarrow> t = re_sub rx_primary_key s"
  using phrases_removed_re_sub re_sub_phrases_removed by blast

lemma phrase_not_after_space:
  assumes "is_space c"
  shows "\<not> begins primary_key_phrase (c # s)"
proof
  assume "begins primary_key_phrase (c # s)"
  then obtain u post where u: "c # s = u @ post" "primary_key_phrase u"
    unfolding begins_def by blast
  from primary_key_phrase_ends[OF u(2)] have "u \<noteq> []" "\<not> is_space (hd u)" by simp_all
  moreover from this(1) u(1) have "hd u = c" by (cases u) simp_all
  ultimately show False using assms by simp
qed

lemma no_phrase_after_spaces:
  "spaces l \<Longrightarrow> contains_piece primary_key_phrase (l @ s) \<Longrightarrow> contains_piece primary_key_phrase s"
proof (induction l)
  case Nil
  then show ?case by simp
next
  case (Cons c l)
  from Cons.prems(1) have c: "is_space c" and l: "spaces l" by (simp_all add: spaces_def)
  from Cons.prems(2) have "contains_piece primary_key_phrase (l @ s)"
    using phrase_not_after_space[OF c] by (simp add: contains_piece_Cons)
  with l show ?case by (rule Cons.IH)
qed

lemma no_phrase_before_spaces:
  "spaces r \<Longrightarrow> contains_piece primary_key_phrase (s @ r) \<Longrightarrow> contains_piece primary_key_phrase s"
proof (induction r rule: rev_induct)
  case Nil
  then show ?case by simp
next
  case (snoc c r)
  from snoc.prems(1) have c: "is_space c" and r: "spaces r" by (simp_all add: spaces_def)
  from snoc.prems(2) obtain pre u post where u: "s @ r @ [c] = pre @ u @ post"
      "primary_key_phrase u"
    unfolding contains_piece_def by auto
  have "post \<noteq> []"
  proof
    assume "post = []"
    with u(1) have "(s @ r) @ [c] = pre @ u" by simp
    moreover have "u \<noteq> []" using primary_key_phrase_ends[OF u(2)] by simp
    ultimately have "last u = c" by (metis last_appendR last_snoc)
    with c primary_key_phrase_ends[OF u(2)] show False by simp
  qed
  then obtain post' c' where "post = post' @ [c']"
    by (metis rev_exhaust)
  with u(1) have "s @ r = pre @ u @ post'" by (metis append_assoc butlast_snoc)
  with u(2) have "contains_piece primary_key_phrase (s @ r)"
    unfolding contains_piece_def by blast
  with r show ?case by (rule snoc.IH)
qed

lemma phrases_removed_before_spaces:
  "phrases_removed s k \<Longrightarrow> spaces r \<Longrightarrow> phrases_removed (s @ r) (k @ r)"
proof (induction rule: phrases_removed.induct)
  case (none s)
  then have "\<not> contains_piece primary_key_phrase (s @ r)"
    using no_phrase_before_spaces by blast
  then show ?case by (rule phrases_removed.none)
next
  case (one pre u post post')
  then have "phrases_removed (pre @ u @ (post @ r)) (pre @ (post' @ r))"
    by (intro phrases_removed.one) simp_all
  then show ?case by simp
qed

lemma phrases_removed_after_spaces:
  assumes "phrases_removed s k" and "spaces l"
  shows "phrases_removed (l @ s) (l @ k)"
  using assms(2)
proof (induction l)
  case Nil
  show ?case using assms(1) by simp
next
  case (Cons c l)
  then have "is_space c" "phrases_removed (l @ s) (l @ k)" by (simp_all add: spaces_def)
  then show ?case
    using phrases_removed_Cons[of "l @ s" "l @ k" c] phrase_not_after_space by simp
qed

lemma stripped_of_padded:
  assumes "stripped_of p k t" "\<forall>c \<in> set l. p c" "\<forall>c \<in> set r. p c"
  shows "stripped_of p (l @ k @ r) t"
proof -
  from assms(1) obtain l' r' where k: "k = l' @ t @ r'" "\<forall>c \<in> set l'. p c" "\<forall>c \<in> set r'. p c"
      "t = [] \<or> (\<not> p (hd t) \<and> \<not> p (last t))"
    unfolding stripped_of_def by blast
  have "l @ k @ r = (l @ l') @ t @ (r' @ r)" using k(1) by simp
  moreover have "\<forall>c \<in> set (l @ l'). p c" "\<forall>c \<in> set (r' @ r). p c"
    using k(2,3) assms(2,3) by auto
  ultimately show ?thesis unfolding stripped_of_def using k(4) by blast
qed

lemma strip_re_sub_strip:
  "strip (re_sub rx_primary_key (strip r)) = strip (re_sub rx_primary_key r)"
proof -
  have "stripped_of is_space r (strip r)"
    unfolding strip_def by (rule strip_with_stripped_of)
  then obtain l rr where r: "r = l @ strip r @ rr" and l: "spaces l" and rr: "spaces rr"
    unfolding stripped_of_def spaces_def by blast
  let ?k = "re_sub rx_primary_key (strip r)"
  have "phrases_removed (strip r) ?k" by (rule re_sub_phrases_removed)
  then have "phrases_removed (strip r @ rr) (?k @ rr)"
    using rr by (rule phrases_removed_before_spaces)
  then have "phrases_removed (l @ strip r @ rr) (l @ ?k @ rr)"
    using l by (rule phrases_removed_after_spaces)
  then have "phrases_removed r (l @ ?k @ rr)" using r by simp
  then have e: "re_sub rx_primary_key r = l @ ?k @ rr"
    by (simp add: phrases_removed_iff)
  have "stripped_of is_space ?k (strip ?k)"
    unfolding strip_def by (rule strip_with_stripped_of)
  then have "stripped_of is_space (l @ ?k @ rr) (strip ?k)"
    using l rr unfolding spaces_def by (intro stripped_of_padded)
  then have "strip (l @ ?k @ rr) = strip ?k"
    unfolding strip_def by (rule stripped_of_unique)
  with e show ?thesis by simp
qed

lemma split_ws_word:
  assumes "spaces ws0" "word n" "rest = [] \<or> is_space (hd rest)"
  shows "split_ws (Suc m) (ws0 @ n @ rest) = n # split_ws m rest"
proof -
  have n: "n \<noteq> []" "\<not> is_space (hd n)" "\<forall>c \<in> set n. \<not> is_space c"
    using assms(2) by (cases n; simp add: word_def)+
  have "dropWhile is_space (ws0 @ n @ rest) = dropWhile is_space (n @ rest)"
    using assms(1) unfolding spaces_def by (rule dropWhile_all)
  also have "\<dots> = n @ rest" using n(1,2) by (rule dropWhile_stop)
  finally have d: "dropWhile is_space (ws0 @ n @ rest) = n @ rest" .
  have t: "takeWhile (\<lambda>c. \<not> is_space c) (n @ rest) = n"
    using n(3) assms(3) by (intro takeWhile_stop) auto
  have "dropWhile (\<lambda>c. \<not> is_space c) (n @ rest) = dropWhile (\<lambda>c. \<not> is_space c) rest"
    using n(3) by (rule dropWhile_all)
  also have "\<dots> = rest"
    using assms(3) by (cases rest) auto
  finally have r: "dropWhile (\<lambda>c. \<not> is_space c) (n @ rest) = rest" .
  show ?thesis
    using n(1) by (simp add: split_ws_Suc d t r)
qed

lemma split_ws_rest:
  assumes "spaces ws" "r \<noteq> []" "\<not> is_space (hd r)"
  shows "split_ws 0 (ws @ r) = [r]"
proof -
  have "dropWhile is_space (ws @ r) = dropWhile is_space r"
    using assms(1) unfolding spaces_def by (rule dropWhile_all)
  also have "\<dots> = r" using dropWhile_stop[of r is_space "[]"] assms(2,3) by simp
  finally show ?thesis using assms(2) by (simp add: split_ws_0)
qed

lemma third_piece_split:
  assumes "third_piece cd r"
  shows "\<exists>n t. split_ws 2 cd = [n, t, r]"
proof -
  from assms obtain ws0 n ws1 t ws2 where cd: "cd = ws0 @ n @ ws1 @ t @ ws2 @ r"
      and w: "spaces ws0" "word n" "ws1 \<noteq> []" "spaces ws1" "word t" "ws2 \<noteq> []" "spaces ws2"
        "r \<noteq> []" "\<not> is_space (hd r)"
    unfolding third_piece_def by blast
  have h1: "ws1 @ t @ ws2 @ r = [] \<or> is_space (hd (ws1 @ t @ ws2 @ r))"
    using w(3,4) by (cases ws1) (simp_all add: spaces_def)
  have h2: "ws2 @ r = [] \<or> is_space (hd (ws2 @ r))"
    using w(6,7) by (cases ws2) (simp_all add: spaces_def)
  have two: "(2::nat) = Suc (Suc 0)" by simp
  have "split_ws 2 cd = n # split_ws (Suc 0) (ws1 @ t @ ws2 @ r)"
    unfolding cd two using w(1,2) h1 by (rule split_ws_word)
  also have "split_ws (Suc 0) (ws1 @ t @ ws2 @ r) = t # split_ws 0 (ws2 @ r)"
    using split_ws_word[of ws1 t "ws2 @ r" 0] w(4,5) h2 by simp
  also have "split_ws 0 (ws2 @ r) = [r]"
    using w(7,8,9) by (rule split_ws_rest)
  finally show ?thesis by blast
qed

lemma split_ws_Nil: "split_ws m [] = []"
  by (cases m) (simp_all add: split_ws_0 split_ws_Suc)

lemma split_ws_Suc_shape:
  assumes "split_ws (Suc m) s = n # rest" and "rest \<noteq> []"
  shows "\<exists>ws0 u. s = ws0 @ n @ u \<and> spaces ws0 \<and> word n \<and> u \<noteq> [] \<and> is_space (hd u)
           \<and> split_ws m u = rest"
proof -
  let ?t = "dropWhile is_space s"
  let ?u = "dropWhile (\<lambda>c. \<not> is_space c) ?t"
  from assms(1) have ne: "?t \<noteq> []" and n: "n = takeWhile (\<lambda>c. \<not> is_space c) ?t"
      and r: "split_ws m ?u = rest"
    by (auto simp: split_ws_Suc Let_def split: if_splits)
  have "\<not> is_space (hd ?t)" using ne by (rule hd_dropWhile)
  then have "n \<noteq> []" using ne n by (cases ?t) auto
  moreover have "\<forall>c \<in> set n. \<not> is_space c" unfolding n by (auto dest: set_takeWhileD)
  ultimately have wn: "word n" by (simp add: word_def)
  have une: "?u \<noteq> []"
  proof
    assume "?u = []"
    then have "split_ws m ?u = []" by (simp only: split_ws_Nil)
    with r assms(2) show False by simp
  qed
  then have "\<not> \<not> is_space (hd ?u)" by (rule hd_dropWhile)
  then have hu: "is_space (hd ?u)" by simp
  have s0: "spaces (takeWhile is_space s)" unfolding spaces_def by (auto dest: set_takeWhileD)
  have "s = takeWhile is_space s @ ?t" by simp
  also have "?t = n @ ?u" unfolding n by simp
  finally have "s = takeWhile is_space s @ n @ ?u" .
  then show ?thesis using s0 wn une hu r by blast
qed

lemma split_ws_0_shape:
  assumes "split_ws 0 u = [r]"
  shows "\<exists>ws. u = ws @ r \<and> spaces ws \<and> r \<noteq> [] \<and> \<not> is_space (hd r)"
proof -
  from assms have ne: "dropWhile is_space u \<noteq> []" and r: "r = dropWhile is_space u"
    by (auto simp: split_ws_0 split: if_splits)
  have "spaces (takeWhile is_space u)" unfolding spaces_def by (auto dest: set_takeWhileD)
  moreover have "u = takeWhile is_space u @ r" unfolding r by simp
  moreover have "\<not> is_space (hd r)" unfolding r using ne by (rule hd_dropWhile)
  ultimately show ?thesis using ne r by blast
qed

lemma spaces_before_word:
  assumes "u = ws @ w" "u \<noteq> []" "is_space (hd u)" "w \<noteq> []" "\<not> is_space (hd w)"
  shows "ws \<noteq> []"
  using assms by (cases ws) auto

lemma split_third_piece:
  assumes "split_ws 2 cd = [n, t, r]"
  shows "third_piece cd r"
proof -
  have two: "(2::nat) = Suc (Suc 0)" by simp
  from assms obtain ws0 u1 where a: "cd = ws0 @ n @ u1" "spaces ws0" "word n" "u1 \<noteq> []"
      "is_space (hd u1)" "split_ws (Suc 0) u1 = [t, r]"
    unfolding two using split_ws_Suc_shape[of "Suc 0" cd n "[t, r]"] by auto
  from a(6) obtain ws1 u2 where b: "u1 = ws1 @ t @ u2" "spaces ws1" "word t" "u2 \<noteq> []"
      "is_space (hd u2)" "split_ws 0 u2 = [r]"
    using split_ws_Suc_shape[of 0 u1 t "[r]"] by auto
  from b(6) obtain ws2 where c: "u2 = ws2 @ r" "spaces ws2" "r \<noteq> []" "\<not> is_space (hd r)"
    using split_ws_0_shape by blast
  have t: "t @ u2 \<noteq> []" "\<not> is_space (hd (t @ u2))"
    using b(3) by (cases t; simp add: word_def)+
  have w1: "ws1 \<noteq> []"
    using spaces_before_word[OF b(1) a(4,5) t] .
  have w2: "ws2 \<noteq> []"
    using spaces_before_word[OF c(1) b(4,5) c(3,4)] .
  have "cd = ws0 @ n @ ws1 @ t @ ws2 @ r" using a(1) b(1) c(1) by simp
  then show ?thesis
    unfolding third_piece_def using a(2,3) w1 b(2,3) w2 c(2,3,4) by blast
qed

lemma third_piece_iff: "third_piece cd r \<longleftrightarrow> (\<exists>n t. split_ws 2 cd = [n, t, r])"
  using third_piece_split split_third_piece by blast

lemma constraints_of_remainder:
  assumes "split_ws 2 cd = [n, t, r]"
  shows "\<exists>c. parse_column_definition cd = Some c
           \<and> (is_primary_key c \<longleftrightarrow> contains_piece primary_key_phrase r)
           \<and> constraints c = (if strip (re_sub rx_primary_key r) = [] then None
                               else Some (strip (re_sub rx_primary_key r)))"
proof -
  have s: "re_search rx_primary_key (strip r) \<noteq> None \<longleftrightarrow> contains_piece primary_key_phrase r"
    using re_search_iff[of rx_primary_key "strip r"]
    by (simp add: occurs_primary_key contains_phrase_strip)
  show ?thesis
  proof (cases "contains_piece primary_key_phrase r")
    case True
    with s assms show ?thesis
      by (simp add: parse_column_definition_def Let_def strip_re_sub_strip
               cong: option.case_cong)
  next
    case False
    then have "re_sub rx_primary_key r = r" by (rule re_sub_no_phrase)
    with False s assms show ?thesis
      by (simp add: parse_column_definition_def Let_def cong: option.case_cong)
  qed
qed

section \<open>The primary key of a table\<close>

lemma in_words_primary_key_cols:
  "u \<in> words rx_primary_key_cols \<longleftrightarrow> (\<exists>cols. primary_key_clause cols u)"
proof
  assume "u \<in> words rx_primary_key_cols"
  then show "\<exists>cols. primary_key_clause cols u"
    unfolding rx_primary_key_cols_def cat.simps primary_key_clause_def
    apply (elim words_CatE words_ChrE)
    apply (simp only: words_unfold)
    apply (elim conjE)
    apply hypsubst
    apply (intro exI conjI, rule refl)
         apply (simp_all only: spaces_def column_text_def simp_thms)
    done
next
  assume "\<exists>cols. primary_key_clause cols u"
  then show "u \<in> words rx_primary_key_cols"
    unfolding rx_primary_key_cols_def cat.simps primary_key_clause_def
    apply (elim exE conjE)
    apply (simp only:)
    apply (intro words_CatI words_ChrI)
          apply (simp_all only: words_unfold spaces_def column_text_def simp_thms)
    done
qed

lemma re_match_clause:
  assumes "primary_key_clause cols u"
  shows "re_match rx_primary_key_cols (u @ post) = Some (Map.empty(1 \<mapsto> cols, 0 \<mapsto> u))"
proof -
  from assms obtain k1 ws1 k2 ws2 where u: "u = k1 @ ws1 @ k2 @ ws2 @ ''('' @ cols @ '')''"
      and k: "keyword ''PRIMARY'' k1" "ws1 \<noteq> []" "spaces ws1" "keyword ''KEY'' k2" "spaces ws2"
        "column_text cols"
    unfolding primary_key_clause_def by blast
  have "first_run rx_primary_key_cols (Map.empty, u @ post) (Map.empty(1 \<mapsto> cols), post)"
    unfolding u using k by (rule first_run_primary_key_cols)
  then show ?thesis by (rule re_match_first_run)
qed

lemma re_match_clause_iff:
  "re_match rx_primary_key_cols s \<noteq> None \<longleftrightarrow> (\<exists>cols. clause_at s 0 cols)"
proof -
  have "re_match rx_primary_key_cols s \<noteq> None
        \<longleftrightarrow> begins (\<lambda>u. \<exists>cols. primary_key_clause cols u) s"
    by (rule re_match_begins) (rule in_words_primary_key_cols)
  also have "\<dots> \<longleftrightarrow> (\<exists>cols. clause_at s 0 cols)"
    unfolding begins_def clause_at_def by auto
  finally show ?thesis .
qed

lemma clause_at_drop: "j \<le> length s \<Longrightarrow> clause_at (drop j s) 0 cols \<longleftrightarrow> clause_at s j cols"
proof
  assume j: "j \<le> length s" and "clause_at (drop j s) 0 cols"
  then obtain u post where "drop j s = u @ post" "primary_key_clause cols u"
    unfolding clause_at_def by auto
  then have "s = take j s @ u @ post" "primary_key_clause cols u"
    by (metis append_take_drop_id)+
  moreover have "length (take j s) = j" using j by simp
  ultimately show "clause_at s j cols" unfolding clause_at_def by blast
next
  assume "clause_at s j cols"
  then obtain pre u post where "s = pre @ u @ post" "length pre = j" "primary_key_clause cols u"
    unfolding clause_at_def by blast
  then have "drop j s = [] @ u @ post" "primary_key_clause cols u" by simp_all
  then show "clause_at (drop j s) 0 cols" unfolding clause_at_def by force
qed

lemma clause_at_length: "clause_at s j cols \<Longrightarrow> j \<le> length s"
  unfolding clause_at_def by auto

lemma re_search_skip:
  "(\<forall>i < length pre. re_match r (drop i (pre @ s)) = None)
     \<Longrightarrow> re_search r (pre @ s) = re_search r s"
proof (induction pre)
  case Nil
  show ?case by simp
next
  case (Cons c pre)
  from Cons.prems have "re_match r (c # pre @ s) = None" by force
  moreover have "\<forall>i < length pre. re_match r (drop i (pre @ s)) = None"
    using Cons.prems by force
  ultimately show ?case using Cons.IH by simp
qed

lemma re_search_Some:
  "re_search r s = Some m \<Longrightarrow>
   \<exists>pre rest. s = pre @ rest \<and> re_match r rest = Some m
     \<and> (\<forall>i < length pre. re_match r (drop i s) = None)"
proof (induction s)
  case Nil
  then have "[] = [] @ [] \<and> re_match r [] = Some m" by simp
  then show ?case by force
next
  case (Cons c s)
  show ?case
  proof (cases "re_match r (c # s)")
    case (Some m')
    with Cons.prems have "c # s = [] @ (c # s) \<and> re_match r (c # s) = Some m" by simp
    then show ?thesis by force
  next
    case None
    with Cons.prems have "re_search r s = Some m" by simp
    then obtain pre rest where p: "s = pre @ rest" "re_match r rest = Some m"
        "\<forall>i < length pre. re_match r (drop i s) = None"
      using Cons.IH by blast
    have "\<forall>i < length (c # pre). re_match r (drop i (c # s)) = None"
    proof (intro allI impI)
      fix i assume "i < length (c # pre)"
      then show "re_match r (drop i (c # s)) = None"
        using None p(3) by (cases i) simp_all
    qed
    moreover have "c # s = (c # pre) @ rest" using p(1) by simp
    ultimately show ?thesis using p(2) by blast
  qed
qed

lemma first_clause_search:
  "first_clause s cols \<longleftrightarrow> (\<exists>m. re_search rx_primary_key_cols s = Some m \<and> m 1 = Some cols)"
proof
  assume "first_clause s cols"
  then obtain i where i: "clause_at s i cols" "\<forall>j cols'. clause_at s j cols' \<longrightarrow> i \<le> j"
    unfolding first_clause_def by blast
  from i(1) obtain pre u post where s: "s = pre @ u @ post" "length pre = i"
      "primary_key_clause cols u"
    unfolding clause_at_def by blast
  have "\<forall>j < length pre. re_match rx_primary_key_cols (drop j (pre @ u @ post)) = None"
  proof (intro allI impI)
    fix j assume j: "j < length pre"
    show "re_match rx_primary_key_cols (drop j (pre @ u @ post)) = None"
    proof (rule ccontr)
      assume "re_match rx_primary_key_cols (drop j (pre @ u @ post)) \<noteq> None"
      then obtain c' where "clause_at (drop j s) 0 c'"
        unfolding s(1) re_match_clause_iff by blast
      then have "clause_at s j c'"
        using clause_at_drop[of j s c'] j s(1) by simp
      with i(2) j s(2) show False by force
    qed
  qed
  then have "re_search rx_primary_key_cols s = re_search rx_primary_key_cols (u @ post)"
    unfolding s(1) by (rule re_search_skip)
  also have "\<dots> = Some (Map.empty(1 \<mapsto> cols, 0 \<mapsto> u))"
    using re_match_clause[OF s(3)] by (intro re_search_at_start)
  finally show "\<exists>m. re_search rx_primary_key_cols s = Some m \<and> m 1 = Some cols"
    by simp
next
  assume "\<exists>m. re_search rx_primary_key_cols s = Some m \<and> m 1 = Some cols"
  then obtain m where m: "re_search rx_primary_key_cols s = Some m" "m 1 = Some cols" by blast
  from re_search_Some[OF m(1)] obtain pre rest where p: "s = pre @ rest"
      "re_match rx_primary_key_cols rest = Some m"
      "\<forall>i < length pre. re_match rx_primary_key_cols (drop i s) = None"
    by blast
  from p(2) obtain c' where "clause_at rest 0 c'"
    using re_match_clause_iff[of rest] by auto
  then obtain u post where r: "rest = u @ post" "primary_key_clause c' u"
    unfolding clause_at_def by auto
  from re_match_clause[OF r(2), of post] p(2) r(1) m(2) have "c' = cols" by auto
  with r p(1) have a: "clause_at s (length pre) cols"
    unfolding clause_at_def by blast
  have "length pre \<le> j" if "clause_at s j c2" for j c2
  proof (rule ccontr)
    assume "\<not> length pre \<le> j"
    then have j: "j < length pre" by simp
    then have "j \<le> length s" using p(1) by simp
    with that have "clause_at (drop j s) 0 c2" by (simp add: clause_at_drop)
    then have "re_match rx_primary_key_cols (drop j s) \<noteq> None"
      unfolding re_match_clause_iff by blast
    with p(3) j show False by simp
  qed
  with a show "first_clause s cols" unfolding first_clause_def by blast
qed

lemma no_clause_search:
  "(\<forall>i cols. \<not> clause_at s i cols) \<longleftrightarrow> re_search rx_primary_key_cols s = None"
proof -
  have "re_search rx_primary_key_cols s \<noteq> None
        \<longleftrightarrow> contains_piece (\<lambda>u. \<exists>cols. primary_key_clause cols u) s"
    unfolding re_search_iff by (rule occurs_piece) (rule in_words_primary_key_cols)
  also have "\<dots> \<longleftrightarrow> (\<exists>i cols. clause_at s i cols)"
    unfolding contains_piece_def clause_at_def by blast
  finally show ?thesis by blast
qed

lemma split_on_nonempty: "split_on sep s \<noteq> []"
  by (induction s) (auto split: list.splits)

lemma join_Cons: "ys \<noteq> [] \<Longrightarrow> join sep (x # ys) = x @ sep @ join sep ys"
  by (cases ys) simp_all

lemma split_on_separated: "separated sep s (split_on sep s)"
proof (induction s)
  case Nil
  show ?case by (simp add: separated_def)
next
  case (Cons c s)
  obtain p ps where ps: "split_on sep s = p # ps"
    using split_on_nonempty[of sep s] by (cases "split_on sep s") auto
  from Cons ps have s: "s = join [sep] (p # ps)" and n: "sep \<notin> set p" "\<forall>item \<in> set ps. sep \<notin> set item"
    by (simp_all add: separated_def)
  show ?case
  proof (cases "c = sep")
    case True
    then have "split_on sep (c # s) = [] # p # ps" using ps by simp
    moreover have "c # s = join [sep] ([] # p # ps)" using True s by simp
    ultimately show ?thesis using n by (simp add: separated_def)
  next
    case False
    then have "split_on sep (c # s) = (c # p) # ps" using ps by simp
    moreover have "c # s = join [sep] ((c # p) # ps)" using s by (cases ps) simp_all
    ultimately show ?thesis using n False by (simp add: separated_def)
  qed
qed

lemma split_on_no_sep: "sep \<notin> set x \<Longrightarrow> split_on sep x = [x]"
  by (induction x) auto

lemma split_on_append: "sep \<notin> set x \<Longrightarrow> split_on sep (x @ sep # rest) = x # split_on sep rest"
  by (induction x) (auto simp: split_on_nonempty split: list.splits)

lemma separated_unique: "separated sep s items \<Longrightarrow> items = split_on sep s"
proof (induction items arbitrary: s)
  case Nil
  then show ?case by (simp add: separated_def)
next
  case (Cons x items)
  show ?case
  proof (cases items)
    case Nil
    with Cons.prems show ?thesis by (simp add: separated_def split_on_no_sep)
  next
    case (Cons y ys)
    with Cons.prems have s: "s = x @ sep # join [sep] items" and x: "sep \<notin> set x"
        and r: "separated sep (join [sep] items) items"
      by (simp_all add: separated_def)
    from Cons.IH[OF r] have "items = split_on sep (join [sep] items)" .
    then show ?thesis unfolding s using x by (simp add: split_on_append)
  qed
qed

lemma separated_iff: "separated sep s items \<longleftrightarrow> items = split_on sep s"
  using split_on_separated separated_unique by blast

lemma list_all2_function: "list_all2 (\<lambda>x y. y = f x) xs ys \<longleftrightarrow> ys = map f xs"
  by (induction xs arbitrary: ys) (auto simp: list_all2_Cons1)

lemma listed_column_list: "listed cols names \<longleftrightarrow> names = column_list cols"
proof -
  have "(\<exists>m. trimmed item m \<and> unquoted m name) \<longleftrightarrow> name = strip_quotes (strip item)"
    for item name
    by (simp add: strip_trimmed strip_quotes_unquoted)
  then show ?thesis
    unfolding listed_def column_list_def separated_iff by (simp add: list_all2_function)
qed

lemma parse_part_adds:
  "primary_key (parse_part acc fragment)
     = primary_key acc @ primary_key (parse_part no_clauses fragment)"
  "columns (parse_part acc fragment) = columns acc @ columns (parse_part no_clauses fragment)"
  by (simp_all add: parse_part_def no_clauses_def Let_def split: option.splits)

lemma foldl_parse_part_adds:
  "primary_key (foldl parse_part acc fragments)
     = primary_key acc @ concat (map (\<lambda>f. primary_key (parse_part no_clauses f)) fragments)"
  "columns (foldl parse_part acc fragments)
     = columns acc @ concat (map (\<lambda>f. columns (parse_part no_clauses f)) fragments)"
proof (induction fragments arbitrary: acc)
  case Nil
  {
    case 1 show ?case by simp
  next
    case 2 show ?case by simp
  }
next
  case (Cons f fragments)
  {
    case 1
    show ?case using Cons(1)[of "parse_part acc f"] parse_part_adds(1)[of acc f] by simp
  next
    case 2
    show ?case using Cons(2)[of "parse_part acc f"] parse_part_adds(2)[of acc f] by simp
  }
qed

lemma re_search_group:
  assumes "re_search rx_primary_key_cols s = Some g"
  shows "\<exists>cols. g 1 = Some cols"
proof -
  from re_search_Some[OF assms] obtain pre rest where
      p: "re_match rx_primary_key_cols rest = Some g"
    by blast
  then have "re_match rx_primary_key_cols rest \<noteq> None" by simp
  then obtain c' where "clause_at rest 0 c'"
    unfolding re_match_clause_iff by blast
  then obtain u post where r: "rest = u @ post" "primary_key_clause c' u"
    unfolding clause_at_def by auto
  from re_match_clause[OF r(2), of post] p r(1) have "g = Map.empty(1 \<mapsto> c', 0 \<mapsto> u)"
    by simp
  then have "g 1 = Some c'" by simp
  then show ?thesis by blast
qed

lemma adds_to_key_iff:
  "adds_to_key fragment names \<longleftrightarrow> names = primary_key (parse_part no_clauses fragment)"
proof -
  let ?part = "strip fragment"
  have b: "begins primary_key_phrase ?part \<longleftrightarrow> re_match rx_primary_key ?part \<noteq> None"
    using re_match_begins[of rx_primary_key primary_key_phrase ?part, OF in_words_primary_key]
    by simp
  show ?thesis
  proof (cases "begins primary_key_phrase ?part")
    case True
    then have m: "re_match rx_primary_key ?part \<noteq> None" using b by simp
    show ?thesis
    proof (cases "re_search rx_primary_key_cols ?part")
      case None
      then have n: "\<forall>i cols. \<not> clause_at ?part i cols" by (simp add: no_clause_search)
      then have "\<not> (\<exists>cols. first_clause ?part cols)"
        unfolding first_clause_def by blast
      with n True have "adds_to_key fragment names \<longleftrightarrow> names = []"
        unfolding adds_to_key_def strip_trimmed by simp
      moreover have "primary_key (parse_part no_clauses fragment) = []"
        using m None by (simp add: parse_part_def Let_def no_clauses_def)
      ultimately show ?thesis by simp
    next
      case (Some g)
      then obtain cols where g: "g 1 = Some cols"
        using re_search_group by blast
      have f: "first_clause ?part c \<longleftrightarrow> c = cols" for c
        using Some g by (auto simp: first_clause_search)
      have "\<not> (\<forall>i cols. \<not> clause_at ?part i cols)"
        using Some by (simp add: no_clause_search)
      with True f have "adds_to_key fragment names \<longleftrightarrow> names = column_list cols"
        unfolding adds_to_key_def strip_trimmed by (auto simp: listed_column_list)
      moreover have "primary_key (parse_part no_clauses fragment) = column_list cols"
        using m Some g by (simp add: parse_part_def Let_def no_clauses_def group_def)
      ultimately show ?thesis by simp
    qed
  next
    case False
    then have m: "re_match rx_primary_key ?part = None" using b by simp
    from False have "adds_to_key fragment names
        \<longleftrightarrow> names = flagged_names (columns (parse_part no_clauses fragment))"
      unfolding adds_to_key_def strip_trimmed by simp
    moreover have "flagged_names (columns (parse_part no_clauses fragment))
        = primary_key (parse_part no_clauses fragment)"
      using m by (simp add: parse_part_def Let_def no_clauses_def flagged_names_def
                       split: option.splits)
    ultimately show ?thesis by simp
  qed
qed

lemma list_all2_adds:
  "list_all2 adds_to_key fragments contributions
     \<longleftrightarrow> contributions = map (\<lambda>f. primary_key (parse_part no_clauses f)) fragments"
  unfolding adds_to_key_iff[abs_def] by (rule list_all2_function)

section \<open>Tables without a name, tables without a body\<close>

lemma parse_create_table_None:
  "parse_create_table stmt = None \<longleftrightarrow>
     find_table_name False stmt = None \<or> find_table_name False stmt = Some []"
  by (auto simp: parse_create_table_def Let_def split: option.splits)

lemma parse_create_table_no_body:
  assumes "find_table_name False stmt = Some n" "n \<noteq> []" "table_body (stmt_str stmt) = None"
  shows "parse_create_table stmt
         = Some \<lparr>columns = [], primary_key = [], foreign_keys = [], tbl_name = n\<rparr>"
  using assms by (simp add: parse_create_table_def parse_body_def no_clauses_def Let_def)

lemma dict_of_tables_no_columns:
  "dict_of_tables [\<lparr>columns = [], primary_key = [], foreign_keys = [], tbl_name = n\<rparr>]
   = Some (PDict [(''tables'',
                   PList [PDict [(''name'', PStr n), (''columns'', PList []),
                                 (''primary_key'', PList []), (''foreign_keys'', PList [])]])])"
  by (simp add: dict_of_tables_def dict_of_table_def)

lemma validate_schema_no_columns:
  assumes "n \<noteq> []"
  shows "map_option validate_schema
           (dict_of_tables [\<lparr>columns = [], primary_key = [], foreign_keys = [], tbl_name = n\<rparr>])
         = Some (err (''Table '' @ quoted n @ '' must have at least one column''))"
  using assms
  by (simp add: dict_of_tables_no_columns validate_schema_def validate_table_def and_then_def
        err_def)

section \<open>The two passes of the validator\<close>

lemma validate_column_ok_name:
  "validate_column column table_name index = Inr u \<Longrightarrow> \<exists>v. subscript column ''name'' = Inr v"
  by (auto simp: validate_column_def subscript_def err_def split: pyval.splits option.splits)

lemma validate_columns_ok_names:
  "validate_columns table_name k cs seen = Inr seen' \<Longrightarrow>
   \<exists>names. for_each (\<lambda>col. subscript col ''name'') cs = Inr names"
proof (induction cs arbitrary: k seen)
  case Nil
  show ?case by simp
next
  case (Cons c cs)
  from Cons.prems obtain u where u: "validate_column c table_name k = Inr u"
    by (auto split: sum.splits)
  then obtain v where v: "subscript c ''name'' = Inr v"
    using validate_column_ok_name by blast
  from Cons.prems u v obtain seen2 where
    "validate_columns table_name (Suc k) cs seen2 = Inr seen'"
    by (auto simp: and_then_def err_def split: sum.splits if_splits)
  then obtain names where "for_each (\<lambda>col. subscript col ''name'') cs = Inr names"
    using Cons.IH by blast
  with v show ?case by simp
qed

lemma validate_table_ok_shape:
  assumes "validate_table table i = Inr u"
  shows "\<exists>name cs names. subscript table ''name'' = Inr name
            \<and> subscript table ''columns'' = Inr (PList cs)
            \<and> for_each (\<lambda>col. subscript col ''name'') cs = Inr names"
proof -
  from assms obtain d n cs seen where d: "table = PDict d" "map_of d ''name'' = Some (PStr n)"
      "map_of d ''columns'' = Some (PList cs)" "validate_columns n 0 cs {} = Inr seen"
    by (auto simp: validate_table_def err_def and_then_def
             split: pyval.splits option.splits if_splits sum.splits)
  from d(4) obtain names where "for_each (\<lambda>col. subscript col ''name'') cs = Inr names"
    using validate_columns_ok_names by blast
  with d(1-3) show ?thesis by (simp add: subscript_def)
qed

lemma first_pass_fail:
  "validate_table t i = Inl e \<Longrightarrow> first_pass i (t # rest) acc = Inl e"
  by (cases acc) (simp add: and_then_def)

lemma first_pass_step:
  assumes "validate_table t i = Inr u"
  shows "\<exists>acc'. first_pass i (t # rest) acc = first_pass (Suc i) rest acc'"
proof -
  obtain name cs names where "subscript t ''name'' = Inr name"
      "subscript t ''columns'' = Inr (PList cs)"
      "for_each (\<lambda>col. subscript col ''name'') cs = Inr names"
    using validate_table_ok_shape[OF assms] by blast
  with assms show ?thesis
    by (cases acc) (auto simp: and_then_def iterate_def)
qed

lemma first_pass_prefix:
  assumes "\<forall>j < length before. validate_table (before ! j) (i + j) = Inr ()"
    and "validate_table t (i + length before) = Inl e"
  shows "first_pass i (before @ t # after) acc = Inl e"
  using assms
proof (induction before arbitrary: i acc)
  case Nil
  then show ?case by (simp add: first_pass_fail)
next
  case (Cons b before)
  from Cons.prems(1) have b: "validate_table b i = Inr ()" by force
  then obtain acc' where s: "first_pass i (b # before @ t # after) acc
      = first_pass (Suc i) (before @ t # after) acc'"
    using first_pass_step by blast
  have "\<forall>j < length before. validate_table (before ! j) (Suc i + j) = Inr ()"
    using Cons.prems(1) by force
  moreover have "validate_table t (Suc i + length before) = Inl e"
    using Cons.prems(2) by simp
  ultimately have "first_pass (Suc i) (before @ t # after) acc' = Inl e"
    by (rule Cons.IH)
  with s show ?case by simp
qed

lemma validate_schema_first_pass_error:
  assumes "map_of s ''tables'' = Some (PList (before @ t # after))"
    and "\<forall>j < length before. validate_table (before ! j) j = Inr ()"
    and "validate_table t (length before) = Inl e"
  shows "validate_schema (PDict s) = Inl e"
proof -
  have "first_pass 0 (before @ t # after) ({}, Map.empty) = Inl e"
    using first_pass_prefix[of before 0 t e after] assms(2,3) by simp
  with assms(1) show ?thesis
    by (simp add: validate_schema_def and_then_def)
qed

lemma validate_schema_not_False: "validate_schema schema \<noteq> Inr False"
  by (auto simp: validate_schema_def and_then_def err_def
           split: pyval.splits option.splits sum.splits prod.splits)

lemma first_pass_all_ok:
  assumes "\<forall>j < length ts. validate_table (ts ! j) (i + j) = Inr ()"
  shows "\<exists>acc'. first_pass i ts acc = Inr acc'"
  using assms
proof (induction ts arbitrary: i acc)
  case Nil
  show ?case by simp
next
  case (Cons t ts)
  from Cons.prems have "validate_table t i = Inr ()" by force
  then obtain acc1 where s: "first_pass i (t # ts) acc = first_pass (Suc i) ts acc1"
    using first_pass_step by blast
  have "\<forall>j < length ts. validate_table (ts ! j) (Suc i + j) = Inr ()"
    using Cons.prems by force
  then obtain acc' where "first_pass (Suc i) ts acc1 = Inr acc'"
    using Cons.IH by blast
  with s show ?case by simp
qed

lemma validate_schema_second_pass:
  assumes "map_of s ''tables'' = Some (PList ts)"
    and "\<forall>j < length ts. validate_table (ts ! j) j = Inr ()"
  shows "\<exists>table_names table_columns.
           first_pass 0 ts ({}, Map.empty) = Inr (table_names, table_columns)
           \<and> validate_schema (PDict s)
               = (case second_pass ts table_names table_columns of
                    Inl e \<Rightarrow> Inl e | Inr u \<Rightarrow> Inr True)"
proof -
  obtain acc' where a: "first_pass 0 ts ({}, Map.empty) = Inr acc'"
    using first_pass_all_ok[of ts 0 "({}, Map.empty)"] assms(2) by auto
  obtain table_names table_columns where "acc' = (table_names, table_columns)"
    by (cases acc')
  with a assms(1) show ?thesis
    by (simp add: validate_schema_def and_then_def split: sum.splits)
qed

section \<open>The checks of one table\<close>

lemma validate_column_ok:
  "validate_column c n j = Inr u \<Longrightarrow>
     subscript c ''name'' = Inr (name_of c) \<and> hashable (name_of c)"
  by (auto simp: validate_column_def subscript_def name_of_def err_def nonempty_str_def
                 hashable_def split: pyval.splits option.splits if_splits)

lemma validate_columns_prefix:
  assumes "\<forall>j < length cb. validate_column (cb ! j) n (k + j) = Inr ()"
    and "distinct (map name_of cb)" and "set (map name_of cb) \<inter> seen = {}"
  shows "validate_columns n k (cb @ rest) seen
         = validate_columns n (k + length cb) rest (seen \<union> set (map name_of cb))"
  using assms
proof (induction cb arbitrary: k seen)
  case Nil
  show ?case by simp
next
  case (Cons c cb)
  from Cons.prems(1) have c: "validate_column c n k = Inr ()" by force
  then have s: "subscript c ''name'' = Inr (name_of c)" "hashable (name_of c)"
    using validate_column_ok by blast+
  from Cons.prems(3) have ns: "name_of c \<notin> seen" by auto
  have 1: "\<forall>j < length cb. validate_column (cb ! j) n (Suc k + j) = Inr ()"
    using Cons.prems(1) by force
  have 2: "distinct (map name_of cb)" using Cons.prems(2) by simp
  have 3: "set (map name_of cb) \<inter> insert (name_of c) seen = {}"
    using Cons.prems(2,3) by auto
  have "validate_columns n k ((c # cb) @ rest) seen
        = validate_columns n (Suc k) (cb @ rest) (insert (name_of c) seen)"
    using c s ns by (simp add: and_then_def element_of_def)
  also have "\<dots> = validate_columns n (Suc k + length cb) rest
                      (insert (name_of c) seen \<union> set (map name_of cb))"
    using 1 2 3 by (rule Cons.IH)
  finally show ?case by simp
qed

lemma validate_columns_pass:
  assumes "columns_pass n cs"
  shows "validate_columns n 0 cs {} = Inr (set (map name_of cs))"
  using validate_columns_prefix[of cs n 0 "{}" "[]"] assms
  by (simp add: columns_pass_def)

lemma validate_columns_first_bad:
  assumes "columns_pass n cb" and "validate_column c n (length cb) = Inl e"
  shows "validate_columns n 0 (cb @ c # ca) {} = Inl e"
  using validate_columns_prefix[of cb n 0 "{}" "c # ca"] assms
  by (simp add: columns_pass_def)

lemma validate_columns_duplicate:
  assumes "columns_pass n cb" and "validate_column c n (length cb) = Inr ()"
    and "name_of c \<in> set (map name_of cb)"
  shows "validate_columns n 0 (cb @ c # ca) {}
         = err (''Duplicate column name '' @ quoted (py_str (name_of c)) @ '' in table ''
                @ quoted n)"
proof -
  have s: "subscript c ''name'' = Inr (name_of c)" "hashable (name_of c)"
    using validate_column_ok[OF assms(2)] by blast+
  show ?thesis
    using validate_columns_prefix[of cb n 0 "{}" "c # ca"] assms s
    by (simp add: columns_pass_def and_then_def element_of_def)
qed

lemma validate_primary_key_ok:
  "\<forall>q \<in> set pk. hashable q \<and> q \<in> names \<Longrightarrow> validate_primary_key n pk names = Inr ()"
  by (induction pk) (simp_all add: and_then_def element_of_def)

lemma validate_primary_key_first_missing:
  assumes "\<forall>q \<in> set pb. hashable q \<and> q \<in> names" and "hashable p" and "p \<notin> names"
  shows "validate_primary_key n (pb @ p # pa) names
         = err (''Primary key column '' @ quoted (py_str p) @ '' not found in table ''
                @ quoted n)"
  using assms by (induction pb) (simp_all add: and_then_def element_of_def)

lemma columns_pass_hashable:
  assumes "columns_pass n cs" and "q \<in> set (map name_of cs)"
  shows "hashable q"
proof -
  from assms(2) obtain j where j: "j < length cs" "q = name_of (cs ! j)"
    by (auto simp: in_set_conv_nth)
  with assms(1) have "validate_column (cs ! j) n j = Inr ()"
    by (simp add: columns_pass_def)
  with j(2) show ?thesis using validate_column_ok by blast
qed

lemma validate_table_required_keys:
  "map_of t ''name'' = None \<Longrightarrow>
     validate_table (PDict t) i = err (''Table at index '' @ show_nat i @ '' must have 'name' field'')"
  "map_of t ''name'' = Some name \<Longrightarrow> map_of t ''columns'' = None \<Longrightarrow>
     validate_table (PDict t) i
       = err (''Table '' @ quoted (py_str name) @ '' must have 'columns' field'')"
  "map_of t ''name'' = Some name \<Longrightarrow> map_of t ''columns'' = Some cols
     \<Longrightarrow> map_of t ''primary_key'' = None \<Longrightarrow>
     validate_table (PDict t) i
       = err (''Table '' @ quoted (py_str name) @ '' must have 'primary_key' field'')"
  by (simp_all add: validate_table_def)

lemma validate_table_columns:
  assumes "table_with t n cs pk" and "cs \<noteq> []"
  shows "validate_table (PDict t) i
         = and_then (validate_columns n 0 cs {}) (\<lambda>column_names.
             (case pk of
                PList pks \<Rightarrow> validate_primary_key n pks column_names
              | _ \<Rightarrow> err (''Table '' @ quoted n @ '' primary_key must be a list'')))"
  using assms by (simp add: validate_table_def table_with_def)

lemma validate_table_bad_column:
  assumes "table_with t n (cb @ c # ca) pk" and "columns_pass n cb"
    and "validate_column c n (length cb) = Inl e"
  shows "validate_table (PDict t) i = Inl e"
  using validate_table_columns[OF assms(1)] validate_columns_first_bad[OF assms(2,3)]
  by (simp add: and_then_def)

lemma validate_table_duplicate_column:
  assumes "table_with t n (cb @ c # ca) pk" and "columns_pass n cb"
    and "validate_column c n (length cb) = Inr ()" and "name_of c \<in> set (map name_of cb)"
  shows "validate_table (PDict t) i
         = err (''Duplicate column name '' @ quoted (py_str (name_of c)) @ '' in table ''
                @ quoted n)"
  using validate_table_columns[OF assms(1)] validate_columns_duplicate[OF assms(2,3,4)]
  by (simp add: and_then_def err_def)

lemma validate_table_missing_key_column:
  assumes "table_with t n cs (PList (pb @ p # pa))" and "cs \<noteq> []" and "columns_pass n cs"
    and "\<forall>q \<in> set pb. q \<in> set (map name_of cs)" and "hashable p"
    and "p \<notin> set (map name_of cs)"
  shows "validate_table (PDict t) i
         = err (''Primary key column '' @ quoted (py_str p) @ '' not found in table ''
                @ quoted n)"
proof -
  have "\<forall>q \<in> set pb. hashable q \<and> q \<in> set (map name_of cs)"
    using assms(4) columns_pass_hashable[OF assms(3)] by blast
  then have "validate_primary_key n (pb @ p # pa) (set (map name_of cs))
         = err (''Primary key column '' @ quoted (py_str p) @ '' not found in table ''
                @ quoted n)"
    using assms(5,6) by (rule validate_primary_key_first_missing)
  then show ?thesis
    using validate_table_columns[OF assms(1,2)] validate_columns_pass[OF assms(3)]
    by (simp add: and_then_def)
qed

lemma validate_table_passes:
  assumes "table_with t n cs (PList pk)" and "cs \<noteq> []" and "columns_pass n cs"
    and "\<forall>q \<in> set pk. q \<in> set (map name_of cs)"
  shows "validate_table (PDict t) i = Inr ()"
proof -
  have "\<forall>q \<in> set pk. hashable q \<and> q \<in> set (map name_of cs)"
    using assms(4) columns_pass_hashable[OF assms(3)] by blast
  then have "validate_primary_key n pk (set (map name_of cs)) = Inr ()"
    by (rule validate_primary_key_ok)
  then show ?thesis
    using validate_table_columns[OF assms(1,2)] validate_columns_pass[OF assms(3)]
    by (simp add: and_then_def)
qed

lemma validate_table_other_faults:
  "map_of t ''name'' = Some name \<Longrightarrow> map_of t ''columns'' = Some cols
     \<Longrightarrow> map_of t ''primary_key'' = Some pk \<Longrightarrow> \<not> nonempty_str name \<Longrightarrow>
     validate_table (PDict t) i
       = err (''Table name at index '' @ show_nat i @ '' must be a non-empty string'')"
  "map_of t ''name'' = Some (PStr n) \<Longrightarrow> n \<noteq> [] \<Longrightarrow> map_of t ''columns'' = Some cols
     \<Longrightarrow> map_of t ''primary_key'' = Some pk \<Longrightarrow> \<forall>cs. cols \<noteq> PList cs \<Longrightarrow>
     validate_table (PDict t) i = err (''Table '' @ quoted n @ '' columns must be a list'')"
  "table_with t n [] pk \<Longrightarrow>
     validate_table (PDict t) i = err (''Table '' @ quoted n @ '' must have at least one column'')"
  by (auto simp: validate_table_def table_with_def nonempty_str_def split: pyval.splits)

lemma validate_table_key_not_list:
  assumes "table_with t n cs pk" and "cs \<noteq> []" and "columns_pass n cs"
    and "\<forall>pks. pk \<noteq> PList pks"
  shows "validate_table (PDict t) i = err (''Table '' @ quoted n @ '' primary_key must be a list'')"
  using validate_table_columns[OF assms(1,2)] validate_columns_pass[OF assms(3)] assms(4)
  by (auto simp: and_then_def split: pyval.splits)

section \<open>The last check of a foreign key\<close>

lemma is_substring_here: "is_substring w (w @ b)"
proof (cases "w @ b")
  case Nil
  then show ?thesis by simp
next
  case (Cons c cs)
  have "take (length w) (w @ b) = w" by simp
  with Cons show ?thesis by simp
qed

lemma is_substring_append: "is_substring w (a @ w @ b)"
  by (induction a) (simp_all add: is_substring_here)

lemma check_columns_ok:
  "\<forall>c \<in> set cs. hashable c \<and> c \<in> names \<Longrightarrow> check_columns msg cs names = Inr ()"
  by (induction cs) (simp_all add: and_then_def element_of_def)

lemma and_then_Inr: "and_then m f = Inr u \<Longrightarrow> \<exists>x. m = Inr x \<and> f x = Inr u"
  by (cases m) (simp_all add: and_then_def)

lemma validate_foreign_key_mismatch:
  assumes "passes_earlier_checks f table table_names table_columns tn nm cs rt rs"
    and "length cs \<noteq> length rs"
  shows "validate_foreign_key (PDict f) table i table_names table_columns
         = err (mismatch_message nm tn (length cs) (length rs))"
proof -
  from assms(1) obtain own theirs where
      t: "subscript table ''name'' = Inr (PStr tn)"
      and n: "map_of f ''name'' = Some (PStr nm)" "nm \<noteq> []"
      and c: "map_of f ''columns'' = Some (PList cs)" "cs \<noteq> []"
      and o: "table_columns (PStr tn) = Some own" "\<forall>c \<in> set cs. hashable c \<and> c \<in> own"
      and r: "map_of f ''ref_table'' = Some (PStr rt)" "rt \<noteq> []" "PStr rt \<in> table_names"
      and rc: "map_of f ''ref_columns'' = Some (PList rs)" "rs \<noteq> []"
      and th: "table_columns (PStr rt) = Some theirs" "\<forall>c \<in> set rs. hashable c \<and> c \<in> theirs"
    unfolding passes_earlier_checks_def by blast
  have fnd: "find (\<lambda>field. map_of f field = None) required_fields = None"
    using n c r rc by (simp add: required_fields_def)
  have k1: "check_columns m1 cs own = Inr ()" for m1
    using o(2) by (rule check_columns_ok)
  have k2: "check_columns m2 rs theirs = Inr ()" for m2
    using th(2) by (rule check_columns_ok)
  show ?thesis
    unfolding validate_foreign_key_def
    using assms(2) t n c o(1) r rc th(1)
    by (simp add: and_then_def fnd subscript_def nonempty_str_def columns_of_def k1 k2
                  mismatch_message_def py_str_def)
qed

lemma mismatch_message_contains:
  "is_substring ''mismatched column counts'' (mismatch_message nm tn m n)"
proof -
  have "mismatch_message nm tn m n
        = (''Foreign key '' @ quoted nm @ '' in table '' @ quoted tn @ '' has '')
          @ ''mismatched column counts''
          @ ('': '' @ show_nat m @ '' columns but '' @ show_nat n @ '' ref_columns'')"
    by (simp add: mismatch_message_def)
  then show ?thesis
    by (simp only: is_substring_append)
qed

lemma validate_foreign_key_ok_lengths:
  assumes "validate_foreign_key (PDict f) table i table_names table_columns = Inr u"
    and "map_of f ''columns'' = Some (PList cs)" "map_of f ''ref_columns'' = Some (PList rs)"
  shows "length cs = length rs"
  using assms
  by (auto simp: validate_foreign_key_def and_then_def subscript_def err_def
           split: sum.splits pyval.splits option.splits if_splits)

lemma validate_foreign_key_rejects:
  assumes "map_of f ''columns'' = Some (PList cs)" "map_of f ''ref_columns'' = Some (PList rs)"
    and "length cs \<noteq> length rs"
  shows "\<exists>e. validate_foreign_key (PDict f) table i table_names table_columns = Inl e"
proof (cases "validate_foreign_key (PDict f) table i table_names table_columns")
  case (Inl e)
  then show ?thesis by blast
next
  case (Inr u)
  then have "length cs = length rs"
    using assms(1,2) by (rule validate_foreign_key_ok_lengths)
  with assms(3) show ?thesis by simp
qed

lemma second_pass_ok:
  "second_pass ts names cols = Inr u \<Longrightarrow> \<forall>tb \<in> set ts. validate_foreign_keys tb names cols = Inr ()"
proof (induction ts)
  case Nil
  show ?case by simp
next
  case (Cons t ts)
  from Cons.prems obtain x where "validate_foreign_keys t names cols = Inr x"
      "second_pass ts names cols = Inr u"
    by (auto dest: and_then_Inr)
  with Cons.IH show ?case by simp
qed

lemma validate_fk_loop_ok:
  "validate_fk_loop table k fs names cols = Inr u \<Longrightarrow>
   \<forall>j < length fs. validate_foreign_key (fs ! j) table (k + j) names cols = Inr ()"
proof (induction fs arbitrary: k)
  case Nil
  show ?case by simp
next
  case (Cons f fs)
  from Cons.prems obtain x where x: "validate_foreign_key f table k names cols = Inr x"
      "validate_fk_loop table (Suc k) fs names cols = Inr u"
    by (auto dest: and_then_Inr)
  from Cons.IH[OF x(2)] x(1) show ?case
    by (auto simp: nth_Cons split: nat.splits)
qed

lemma validate_schema_ok_lengths:
  assumes "validate_schema (PDict s) = Inr b"
    and "map_of s ''tables'' = Some (PList ts)" "PDict t \<in> set ts"
    and "map_of t ''foreign_keys'' = Some (PList fs)" "PDict f \<in> set fs"
    and "map_of f ''columns'' = Some (PList cs)" "map_of f ''ref_columns'' = Some (PList rs)"
  shows "length cs = length rs"
proof -
  from assms(1,2) obtain names cols u where "second_pass ts names cols = Inr u"
    by (auto simp: validate_schema_def and_then_def split: sum.splits prod.splits)
  then have "validate_foreign_keys (PDict t) names cols = Inr ()"
    using second_pass_ok assms(3) by blast
  then have "validate_fk_loop (PDict t) 0 fs names cols = Inr ()"
    using assms(4) by (simp add: validate_foreign_keys_def contains_def subscript_def and_then_def)
  then have a: "\<forall>j < length fs. validate_foreign_key (fs ! j) (PDict t) (0 + j) names cols = Inr ()"
    by (rule validate_fk_loop_ok)
  from assms(5) obtain j where "j < length fs" "fs ! j = PDict f"
    by (auto simp: in_set_conv_nth)
  with a have "validate_foreign_key (PDict f) (PDict t) j names cols = Inr ()" by force
  then show ?thesis using assms(6,7) by (rule validate_foreign_key_ok_lengths)
qed

lemma second_pass_prefix:
  assumes "\<forall>tb \<in> set before. validate_foreign_keys tb names cols = Inr ()"
    and "validate_foreign_keys t names cols = Inl e"
  shows "second_pass (before @ t # after) names cols = Inl e"
  using assms by (induction before) (simp_all add: and_then_def)

lemma validate_fk_loop_prefix:
  assumes "\<forall>j < length before. validate_foreign_key (before ! j) table (k + j) names cols = Inr ()"
    and "validate_foreign_key f table (k + length before) names cols = Inl e"
  shows "validate_fk_loop table k (before @ f # after) names cols = Inl e"
  using assms
proof (induction before arbitrary: k)
  case Nil
  then show ?case by (simp add: and_then_def)
next
  case (Cons b before)
  from Cons.prems(1) have b: "validate_foreign_key b table k names cols = Inr ()" by force
  have "\<forall>j < length before. validate_foreign_key (before ! j) table (Suc k + j) names cols = Inr ()"
    using Cons.prems(1) by force
  moreover have "validate_foreign_key f table (Suc k + length before) names cols = Inl e"
    using Cons.prems(2) by simp
  ultimately have "validate_fk_loop table (Suc k) (before @ f # after) names cols = Inl e"
    by (rule Cons.IH)
  with b show ?case by (simp add: and_then_def)
qed

lemma validate_schema_mismatch:
  assumes "map_of s ''tables'' = Some (PList (tbefore @ PDict t # tafter))"
    and "first_pass 0 (tbefore @ PDict t # tafter) ({}, Map.empty) = Inr (names, cols)"
    and "\<forall>tb \<in> set tbefore. validate_foreign_keys tb names cols = Inr ()"
    and "map_of t ''foreign_keys'' = Some (PList (fbefore @ PDict f # fafter))"
    and "\<forall>j < length fbefore.
           validate_foreign_key (fbefore ! j) (PDict t) j names cols = Inr ()"
    and "passes_earlier_checks f (PDict t) names cols tn nm cs rt rs"
    and "length cs \<noteq> length rs"
  shows "validate_schema (PDict s) = err (mismatch_message nm tn (length cs) (length rs))"
proof -
  let ?e = "SchemaValidationError (mismatch_message nm tn (length cs) (length rs))"
  have "validate_foreign_key (PDict f) (PDict t) (0 + length fbefore) names cols = Inl ?e"
    using validate_foreign_key_mismatch[OF assms(6,7)] by (simp add: err_def)
  moreover have "\<forall>j < length fbefore.
           validate_foreign_key (fbefore ! j) (PDict t) (0 + j) names cols = Inr ()"
    using assms(5) by simp
  ultimately have "validate_fk_loop (PDict t) 0 (fbefore @ PDict f # fafter) names cols = Inl ?e"
    by (intro validate_fk_loop_prefix)
  then have "validate_foreign_keys (PDict t) names cols = Inl ?e"
    using assms(4) by (simp add: validate_foreign_keys_def contains_def subscript_def and_then_def)
  then have "second_pass (tbefore @ PDict t # tafter) names cols = Inl ?e"
    using assms(3) by (intro second_pass_prefix)
  then show ?thesis
    using assms(1,2) by (simp add: validate_schema_def and_then_def err_def)
qed

lemma check_columns_Inr:
  "check_columns m cs names = Inr u \<Longrightarrow> \<forall>c \<in> set cs. hashable c \<and> c \<in> names"
  by (induction cs) (auto simp: and_then_def element_of_def err_def split: if_splits)

lemma check_columns_Inl:
  "check_columns m cs names = Inl e \<Longrightarrow> e = TypeError \<or> (\<exists>c. e = SchemaValidationError (m c))"
  by (induction cs) (auto simp: and_then_def element_of_def err_def split: if_splits)

lemma last_quoted: "last (quoted t) = CHR 0x27"
  by (simp add: quoted_def sq_def)

lemma quoted_not_Nil: "quoted t \<noteq> []"
  by (simp add: quoted_def sq_def)

lemma last_mismatch_message: "last (mismatch_message nm tn m n) = CHR ''s''"
  by (simp add: mismatch_message_def)

lemma mismatch_message_not_Nil: "mismatch_message nm tn m n \<noteq> []"
  by (simp add: mismatch_message_def)

lemma last_check_only:
  assumes "validate_foreign_key (PDict f) table i names cols = Inl (SchemaValidationError msg)"
    and "last msg = CHR ''s''"
    and "subscript table ''name'' = Inr (PStr tn)"
    and "map_of f ''columns'' = Some (PList cs)" and "map_of f ''ref_columns'' = Some (PList rs)"
  shows "(\<exists>nm. map_of f ''name'' = Some (PStr nm) \<and> nm \<noteq> []) \<and> cs \<noteq> []
         \<and> (\<exists>own. cols (PStr tn) = Some own \<and> (\<forall>c \<in> set cs. hashable c \<and> c \<in> own))
         \<and> (\<exists>rt. map_of f ''ref_table'' = Some (PStr rt) \<and> rt \<noteq> [] \<and> PStr rt \<in> names
                \<and> rs \<noteq> []
                \<and> (\<exists>theirs. cols (PStr rt) = Some theirs
                       \<and> (\<forall>c \<in> set rs. hashable c \<and> c \<in> theirs)))"
  using assms
  by (auto simp: validate_foreign_key_def and_then_def subscript_def err_def columns_of_def
                 nonempty_str_def required_fields_def last_quoted quoted_not_Nil py_str_def
           split: option.splits pyval.splits sum.splits if_splits
           dest!: check_columns_Inr check_columns_Inl)

lemma mismatch_only_after_earlier_checks:
  assumes "subscript table ''name'' = Inr (PStr tn)"
    and "map_of f ''columns'' = Some (PList cs)" "map_of f ''ref_columns'' = Some (PList rs)"
    and "length cs \<noteq> length rs"
  shows "(\<exists>nm tn' m n. validate_foreign_key (PDict f) table i table_names table_columns
                        = err (mismatch_message nm tn' m n))
         \<longleftrightarrow> (\<exists>nm rt. passes_earlier_checks f table table_names table_columns tn nm cs rt rs)"
proof
  assume "\<exists>nm tn' m n. validate_foreign_key (PDict f) table i table_names table_columns
                        = err (mismatch_message nm tn' m n)"
  then obtain nm tn' m n where
    "validate_foreign_key (PDict f) table i table_names table_columns
       = Inl (SchemaValidationError (mismatch_message nm tn' m n))"
    unfolding err_def by blast
  from last_check_only[OF this last_mismatch_message assms(1-3)]
  show "\<exists>nm rt. passes_earlier_checks f table table_names table_columns tn nm cs rt rs"
    unfolding passes_earlier_checks_def using assms(1-3) by blast
next
  assume "\<exists>nm rt. passes_earlier_checks f table table_names table_columns tn nm cs rt rs"
  then obtain nm rt where "passes_earlier_checks f table table_names table_columns tn nm cs rt rs"
    by blast
  then have "validate_foreign_key (PDict f) table i table_names table_columns
             = err (mismatch_message nm tn (length cs) (length rs))"
    using assms(4) by (rule validate_foreign_key_mismatch)
  then show "\<exists>nm tn' m n. validate_foreign_key (PDict f) table i table_names table_columns
                        = err (mismatch_message nm tn' m n)"
    by blast
qed

lemma validate_schema_rejects:
  assumes "map_of s ''tables'' = Some (PList ts)" "PDict t \<in> set ts"
    and "map_of t ''foreign_keys'' = Some (PList fs)" "PDict f \<in> set fs"
    and "map_of f ''columns'' = Some (PList cs)" "map_of f ''ref_columns'' = Some (PList rs)"
    and "length cs \<noteq> length rs"
  shows "\<exists>e. validate_schema (PDict s) = Inl e"
proof (cases "validate_schema (PDict s)")
  case (Inl e)
  then show ?thesis by blast
next
  case (Inr b)
  then have "length cs = length rs"
    using assms(1-6) by (rule validate_schema_ok_lengths)
  with assms(7) show ?thesis by simp
qed

lemma first_pass_users_orders:
  "first_pass 0 [table_users, (PDict orders_two)] ({}, Map.empty)
   = Inr (recorded_names, recorded_columns)"
proof -
  have u: "validate_table table_users 0 = Inr ()" by code_simp
  have o: "validate_table (PDict orders_two) (Suc 0) = Inr ()" by code_simp
  have su: "subscript table_users ''name'' = Inr (PStr ''users'')"
      "subscript table_users ''columns''
       = Inr (PList [column_dict ''id'' ''INT'', column_dict ''name'' ''TEXT''])"
    by (simp_all add: table_users_def subscript_def)
  have so: "subscript (PDict orders_two) ''name'' = Inr (PStr ''orders'')"
      "subscript (PDict orders_two) ''columns''
       = Inr (PList [column_dict ''id'' ''INT'', column_dict ''user_id'' ''INT''])"
    by (simp_all add: orders_two_def subscript_def)
  have c: "subscript (column_dict n ty) ''name'' = Inr (PStr n)" for n ty
    by (simp add: column_dict_def subscript_def)
  show ?thesis
    by (simp add: u o su so c and_then_def iterate_def recorded_names_def recorded_columns_def
          insert_commute)
qed

section \<open>The AST builder\<close>

lemma and_then_Inl: "and_then m f = Inl e \<Longrightarrow> m = Inl e \<or> (\<exists>x. m = Inr x \<and> f x = Inl e)"
  by (cases m) (simp_all add: and_then_def)

lemma for_each_Inl: "for_each f xs = Inl e \<Longrightarrow> \<exists>x \<in> set xs. f x = Inl e"
  by (induction xs) (auto split: sum.splits)

lemma for_each_ok: "\<forall>x \<in> set xs. \<exists>y. f x = Inr y \<Longrightarrow> \<exists>ys. for_each f xs = Inr ys"
  by (induction xs) auto

lemma subscript_KeyError: "subscript v key = Inl (KeyError k) \<Longrightarrow> k = PStr key \<and> lacks key v"
  by (auto simp: subscript_def lacks_def split: pyval.splits option.splits)

lemma py_get_no_KeyError: "py_get v key dflt \<noteq> Inl (KeyError k)"
  by (auto simp: py_get_def split: pyval.splits option.splits)

lemma iterate_no_KeyError: "iterate v \<noteq> Inl (KeyError k)"
  by (auto simp: iterate_def split: pyval.splits)

lemma build_column_KeyError:
  assumes "build_column c = Inl (KeyError k)"
  shows "\<exists>key \<in> {''name'', ''type''}. k = PStr key \<and> lacks key c"
proof -
  from assms have "subscript c ''name'' = Inl (KeyError k)
      \<or> subscript c ''type'' = Inl (KeyError k)"
    unfolding build_column_def
    by (auto dest!: and_then_Inl simp: py_get_no_KeyError)
  then show ?thesis using subscript_KeyError by blast
qed

lemma build_foreign_key_KeyError:
  assumes "build_foreign_key fk = Inl (KeyError k)"
  shows "\<exists>key \<in> set required_fields. k = PStr key \<and> lacks key fk"
proof -
  from assms have "subscript fk ''name'' = Inl (KeyError k)
      \<or> subscript fk ''columns'' = Inl (KeyError k)
      \<or> subscript fk ''ref_table'' = Inl (KeyError k)
      \<or> subscript fk ''ref_columns'' = Inl (KeyError k)"
    unfolding build_foreign_key_def
    by (auto dest!: and_then_Inl)
  then show ?thesis using subscript_KeyError by (auto simp: required_fields_def)
qed


lemma and_then_KeyError:
  "and_then m f = Inl (KeyError k) \<Longrightarrow> m \<noteq> Inl (KeyError k)
   \<Longrightarrow> \<exists>x. m = Inr x \<and> f x = Inl (KeyError k)"
  using and_then_Inl by blast

lemma py_get_Inr: "py_get v key dflt = Inr x \<Longrightarrow> \<exists>d. v = PDict d \<and> x = entry d key dflt"
  by (auto simp: py_get_def entry_def split: pyval.splits option.splits)

lemma iterate_Inr: "iterate v = Inr xs \<Longrightarrow> elements v = xs"
  by (simp add: elements_def)

lemma build_table_KeyError:
  assumes "build_table t = Inl (KeyError k)"
  shows "\<exists>key. k = PStr key \<and> table_lacks key t"
proof -
  let ?e = "Inl (KeyError k) :: error + Table"
  from assms obtain cols where c1: "py_get t ''columns'' (PList []) = Inr cols"
    and r1: "and_then (iterate cols) (\<lambda>col_dicts.
     and_then (for_each build_column col_dicts) (\<lambda>cs.
     and_then (py_get t ''foreign_keys'' (PList [])) (\<lambda>fks.
     and_then (iterate fks) (\<lambda>fk_dicts.
     and_then (for_each build_foreign_key fk_dicts) (\<lambda>fs.
     and_then (subscript t ''name'') (\<lambda>n.
     and_then (py_get t ''primary_key'' (PList [])) (\<lambda>pk.
       Inr \<lparr>t_name = n, t_columns = cs, t_primary_key = pk, t_foreign_keys = fs\<rparr>))))))) = ?e"
    using and_then_KeyError[OF assms[unfolded build_table_def] py_get_no_KeyError] by blast
  from c1 obtain d where d: "t = PDict d" "cols = entry d ''columns'' (PList [])"
    using py_get_Inr by blast
  from r1 obtain col_dicts where c2: "iterate cols = Inr col_dicts"
    and r2: "and_then (for_each build_column col_dicts) (\<lambda>cs.
     and_then (py_get t ''foreign_keys'' (PList [])) (\<lambda>fks.
     and_then (iterate fks) (\<lambda>fk_dicts.
     and_then (for_each build_foreign_key fk_dicts) (\<lambda>fs.
     and_then (subscript t ''name'') (\<lambda>n.
     and_then (py_get t ''primary_key'' (PList [])) (\<lambda>pk.
       Inr \<lparr>t_name = n, t_columns = cs, t_primary_key = pk, t_foreign_keys = fs\<rparr>)))))) = ?e"
    using and_then_KeyError[OF r1 iterate_no_KeyError] by blast
  have e1: "elements (entry d ''columns'' (PList [])) = col_dicts"
    using c2 d(2) iterate_Inr by blast
  show ?thesis
  proof (cases "for_each build_column col_dicts")
    case (Inl e)
    with r2 have "for_each build_column col_dicts = Inl (KeyError k)"
      by (simp add: and_then_def)
    then obtain c where "c \<in> set col_dicts" "build_column c = Inl (KeyError k)"
      using for_each_Inl by blast
    then obtain key where "key \<in> {''name'', ''type''}" "k = PStr key" "lacks key c"
      using build_column_KeyError by blast
    with \<open>c \<in> set col_dicts\<close> e1 d(1) show ?thesis
      unfolding table_lacks_def by auto
  next
    case (Inr cs)
    with r2 have r2': "and_then (py_get t ''foreign_keys'' (PList [])) (\<lambda>fks.
     and_then (iterate fks) (\<lambda>fk_dicts.
     and_then (for_each build_foreign_key fk_dicts) (\<lambda>fs.
     and_then (subscript t ''name'') (\<lambda>n.
     and_then (py_get t ''primary_key'' (PList [])) (\<lambda>pk.
       Inr \<lparr>t_name = n, t_columns = cs, t_primary_key = pk, t_foreign_keys = fs\<rparr>))))) = ?e"
      by (simp add: and_then_def)
    obtain fks where c3: "py_get t ''foreign_keys'' (PList []) = Inr fks"
      and r3: "and_then (iterate fks) (\<lambda>fk_dicts.
     and_then (for_each build_foreign_key fk_dicts) (\<lambda>fs.
     and_then (subscript t ''name'') (\<lambda>n.
     and_then (py_get t ''primary_key'' (PList [])) (\<lambda>pk.
       Inr \<lparr>t_name = n, t_columns = cs, t_primary_key = pk, t_foreign_keys = fs\<rparr>)))) = ?e"
      using and_then_KeyError[OF r2' py_get_no_KeyError] by blast
    from c3 d(1) have f: "fks = entry d ''foreign_keys'' (PList [])"
      using py_get_Inr by blast
    from r3 obtain fk_dicts where c4: "iterate fks = Inr fk_dicts"
      and r4: "and_then (for_each build_foreign_key fk_dicts) (\<lambda>fs.
     and_then (subscript t ''name'') (\<lambda>n.
     and_then (py_get t ''primary_key'' (PList [])) (\<lambda>pk.
       Inr \<lparr>t_name = n, t_columns = cs, t_primary_key = pk, t_foreign_keys = fs\<rparr>))) = ?e"
      using and_then_KeyError[OF r3 iterate_no_KeyError] by blast
    have e2: "elements (entry d ''foreign_keys'' (PList [])) = fk_dicts"
      using c4 f iterate_Inr by blast
    show ?thesis
    proof (cases "for_each build_foreign_key fk_dicts")
      case (Inl e)
      with r4 have "for_each build_foreign_key fk_dicts = Inl (KeyError k)"
        by (simp add: and_then_def)
      then obtain fk where "fk \<in> set fk_dicts" "build_foreign_key fk = Inl (KeyError k)"
        using for_each_Inl by blast
      then obtain key where "key \<in> set required_fields" "k = PStr key" "lacks key fk"
        using build_foreign_key_KeyError by blast
      with \<open>fk \<in> set fk_dicts\<close> e2 d(1) show ?thesis
        unfolding table_lacks_def by auto
    next
      case (Inr fs)
      with r4 have "and_then (subscript t ''name'') (\<lambda>n.
     and_then (py_get t ''primary_key'' (PList [])) (\<lambda>pk.
       Inr \<lparr>t_name = n, t_columns = cs, t_primary_key = pk, t_foreign_keys = fs\<rparr>)) = ?e"
        by (simp add: and_then_def)
      then have "subscript t ''name'' = Inl (KeyError k)"
        by (cases "subscript t ''name''")
           (auto simp: and_then_def py_get_def split: pyval.splits option.splits)
      then have "k = PStr ''name''" "lacks ''name'' t"
        using subscript_KeyError by blast+
      with d(1) show ?thesis
        unfolding table_lacks_def by (auto simp: lacks_def)
    qed
  qed
qed

lemma build_KeyError:
  assumes "build raw = Inl (KeyError k)"
  shows "\<exists>key. k = PStr key \<and> record_lacks key raw"
proof -
  from assms obtain tables where c1: "py_get raw ''tables'' (PList []) = Inr tables"
    and r1: "and_then (iterate tables) (\<lambda>table_dicts.
     and_then (for_each build_table table_dicts) (\<lambda>ts. Inr \<lparr>s_tables = ts\<rparr>))
       = Inl (KeyError k)"
    using and_then_KeyError[OF assms[unfolded build_def] py_get_no_KeyError] by blast
  from c1 obtain d where d: "raw = PDict d" "tables = entry d ''tables'' (PList [])"
    using py_get_Inr by blast
  from r1 obtain table_dicts where c2: "iterate tables = Inr table_dicts"
    and r2: "and_then (for_each build_table table_dicts) (\<lambda>ts. Inr \<lparr>s_tables = ts\<rparr>)
       = Inl (KeyError k)"
    using and_then_KeyError[OF r1 iterate_no_KeyError] by blast
  have e: "elements (entry d ''tables'' (PList [])) = table_dicts"
    using c2 d(2) iterate_Inr by blast
  from r2 have "for_each build_table table_dicts = Inl (KeyError k)"
    by (cases "for_each build_table table_dicts") (simp_all add: and_then_def)
  then obtain t where t: "t \<in> set table_dicts" "build_table t = Inl (KeyError k)"
    using for_each_Inl by blast
  then obtain key where "k = PStr key" "table_lacks key t"
    using build_table_KeyError by blast
  with t(1) e d(1) show ?thesis
    unfolding record_lacks_def by auto
qed

lemma build_column_ok: "has_keys [''name'', ''type''] c \<Longrightarrow> \<exists>y. build_column c = Inr y"
  by (auto simp: has_keys_def build_column_def and_then_def subscript_def py_get_def
           split: pyval.splits option.splits)

lemma build_foreign_key_ok: "has_keys required_fields fk \<Longrightarrow> \<exists>y. build_foreign_key fk = Inr y"
  by (auto simp: has_keys_def build_foreign_key_def and_then_def subscript_def required_fields_def
           split: pyval.splits)

lemma dicts_with_for_each:
  assumes "dicts_with ks v" and "\<And>x. has_keys ks x \<Longrightarrow> \<exists>y. f x = Inr y"
  shows "\<exists>xs ys. iterate v = Inr xs \<and> for_each f xs = Inr ys"
proof -
  from assms(1) obtain xs where v: "v = PList xs" "\<forall>x \<in> set xs. has_keys ks x"
    by (auto simp: dicts_with_def split: pyval.splits)
  then have "\<forall>x \<in> set xs. \<exists>y. f x = Inr y" using assms(2) by blast
  then obtain ys where "for_each f xs = Inr ys" using for_each_ok by blast
  with v(1) show ?thesis by (simp add: iterate_def)
qed

lemma build_table_ok:
  assumes "table_record required_fields t"
  shows "\<exists>y. build_table t = Inr y"
proof -
  from assms obtain d where d: "t = PDict d" "map_of d ''name'' \<noteq> None"
      "dicts_with [''name'', ''type''] (entry d ''columns'' (PList []))"
      "dicts_with required_fields (entry d ''foreign_keys'' (PList []))"
    by (auto simp: table_record_def split: pyval.splits)
  obtain cds cs where c: "iterate (entry d ''columns'' (PList [])) = Inr cds"
      "for_each build_column cds = Inr cs"
    using dicts_with_for_each[OF d(3), of build_column] build_column_ok by blast
  obtain fds fs where f: "iterate (entry d ''foreign_keys'' (PList [])) = Inr fds"
      "for_each build_foreign_key fds = Inr fs"
    using dicts_with_for_each[OF d(4), of build_foreign_key] build_foreign_key_ok by blast
  have g: "py_get t key dflt = Inr (entry d key dflt)" for key dflt
    using d(1) by (simp add: py_get_def entry_def split: option.splits)
  from d(2) obtain n where "subscript t ''name'' = Inr n"
    using d(1) by (auto simp: subscript_def)
  then show ?thesis
    unfolding build_table_def using c f by (simp add: g and_then_def)
qed

lemma build_ok:
  assumes "raw_record required_fields raw"
  shows "\<exists>s. build raw = Inr s"
proof -
  from assms obtain d ts where d: "raw = PDict d" "entry d ''tables'' (PList []) = PList ts"
      "\<forall>t \<in> set ts. table_record required_fields t"
    by (auto simp: raw_record_def split: pyval.splits)
  from d(3) have "\<forall>t \<in> set ts. \<exists>y. build_table t = Inr y"
    using build_table_ok by blast
  then obtain ys where "for_each build_table ts = Inr ys"
    using for_each_ok by blast
  moreover have "py_get raw ''tables'' (PList []) = Inr (PList ts)"
    using d(1,2) by (simp add: py_get_def entry_def split: option.splits)
  ultimately show ?thesis
    unfolding build_def by (simp add: and_then_def iterate_def)
qed

section \<open>C1: the first violation in document order\<close>

text \<open>
  Claim C1: validation returns success or exactly one error, the first violation in
  document order.  The first pass goes through the tables in order and ends at the first
  table that \<^verbatim>\<open>_validate_table\<close> rejects, with that error, whatever the foreign keys of
  the tables before it are; only when every table has passed does the second pass check the
  foreign keys, with the names and columns the first pass recorded.  Within a table the
  required keys come first: a table without \<open>name\<close>, without \<open>columns\<close> or without
  \<open>primary_key\<close> is rejected for the first of them that is missing, whatever its columns
  are.  Then come the name and the list of columns, then the columns in order: the first
  column that fails its check or repeats a name is reported, whatever the primary key is.
  Then comes the primary key: it must be a list, and the first of its entries that names
  no column is reported.  A table that passes all of this is accepted.
\<close>

theorem first_pass_before_second_pass:
  "(map_of s ''tables'' = Some (PList (before @ t # after))
      \<and> (\<forall>j < length before. validate_table (before ! j) j = Inr ())
      \<and> validate_table t (length before) = Inl e
      \<longrightarrow> validate_schema (PDict s) = Inl e)
   \<and> (map_of s ''tables'' = Some (PList ts)
      \<and> (\<forall>j < length ts. validate_table (ts ! j) j = Inr ())
      \<longrightarrow> (\<exists>table_names table_columns.
             first_pass 0 ts ({}, Map.empty) = Inr (table_names, table_columns)
             \<and> validate_schema (PDict s)
                 = (case second_pass ts table_names table_columns of
                      Inl e \<Rightarrow> Inl e | Inr u \<Rightarrow> Inr True)))
   \<and> validate_schema schema \<noteq> Inr False
   \<and> (map_of d ''name'' = None
      \<longrightarrow> validate_table (PDict d) i
          = err (''Table at index '' @ show_nat i @ '' must have 'name' field''))
   \<and> (map_of d ''name'' = Some name \<and> map_of d ''columns'' = None
      \<longrightarrow> validate_table (PDict d) i
          = err (''Table '' @ quoted (py_str name) @ '' must have 'columns' field''))
   \<and> (map_of d ''name'' = Some name \<and> map_of d ''columns'' = Some cols
      \<and> map_of d ''primary_key'' = None
      \<longrightarrow> validate_table (PDict d) i
          = err (''Table '' @ quoted (py_str name) @ '' must have 'primary_key' field''))
   \<and> (map_of d ''name'' = Some name \<and> map_of d ''columns'' = Some cols
      \<and> map_of d ''primary_key'' = Some pk \<and> \<not> nonempty_str name
      \<longrightarrow> validate_table (PDict d) i
          = err (''Table name at index '' @ show_nat i @ '' must be a non-empty string''))
   \<and> (map_of d ''name'' = Some (PStr n) \<and> n \<noteq> [] \<and> map_of d ''columns'' = Some cols
      \<and> map_of d ''primary_key'' = Some pk \<and> (\<forall>cs. cols \<noteq> PList cs)
      \<longrightarrow> validate_table (PDict d) i = err (''Table '' @ quoted n @ '' columns must be a list''))
   \<and> (table_with d n [] pk
      \<longrightarrow> validate_table (PDict d) i
          = err (''Table '' @ quoted n @ '' must have at least one column''))
   \<and> (table_with d n (cb @ c # ca) pk \<and> columns_pass n cb
      \<and> validate_column c n (length cb) = Inl e
      \<longrightarrow> validate_table (PDict d) i = Inl e)
   \<and> (table_with d n (cb @ c # ca) pk \<and> columns_pass n cb
      \<and> validate_column c n (length cb) = Inr () \<and> name_of c \<in> set (map name_of cb)
      \<longrightarrow> validate_table (PDict d) i
          = err (''Duplicate column name '' @ quoted (py_str (name_of c)) @ '' in table ''
                 @ quoted n))
   \<and> (table_with d n cs pk \<and> cs \<noteq> [] \<and> columns_pass n cs \<and> (\<forall>pks. pk \<noteq> PList pks)
      \<longrightarrow> validate_table (PDict d) i
          = err (''Table '' @ quoted n @ '' primary_key must be a list''))
   \<and> (table_with d n cs (PList (pb @ p # pa)) \<and> cs \<noteq> [] \<and> columns_pass n cs
      \<and> (\<forall>q \<in> set pb. q \<in> set (map name_of cs)) \<and> hashable p
      \<and> p \<notin> set (map name_of cs)
      \<longrightarrow> validate_table (PDict d) i
          = err (''Primary key column '' @ quoted (py_str p) @ '' not found in table ''
                 @ quoted n))
   \<and> (table_with d n cs (PList pks) \<and> cs \<noteq> [] \<and> columns_pass n cs
      \<and> (\<forall>q \<in> set pks. q \<in> set (map name_of cs))
      \<longrightarrow> validate_table (PDict d) i = Inr ())"
proof (intro conjI impI)
  assume "map_of s ''tables'' = Some (PList (before @ t # after))
      \<and> (\<forall>j < length before. validate_table (before ! j) j = Inr ())
      \<and> validate_table t (length before) = Inl e"
  then show "validate_schema (PDict s) = Inl e"
    using validate_schema_first_pass_error[of s before t after e] by blast
next
  assume "map_of s ''tables'' = Some (PList ts)
      \<and> (\<forall>j < length ts. validate_table (ts ! j) j = Inr ())"
  then show "\<exists>table_names table_columns.
             first_pass 0 ts ({}, Map.empty) = Inr (table_names, table_columns)
             \<and> validate_schema (PDict s)
                 = (case second_pass ts table_names table_columns of
                      Inl e \<Rightarrow> Inl e | Inr u \<Rightarrow> Inr True)"
    using validate_schema_second_pass[of s ts] by blast
next
  show "validate_schema schema \<noteq> Inr False"
    by (rule validate_schema_not_False)
next
  assume "map_of d ''name'' = None"
  then show "validate_table (PDict d) i
          = err (''Table at index '' @ show_nat i @ '' must have 'name' field'')"
    by (rule validate_table_required_keys(1))
next
  assume "map_of d ''name'' = Some name \<and> map_of d ''columns'' = None"
  then show "validate_table (PDict d) i
          = err (''Table '' @ quoted (py_str name) @ '' must have 'columns' field'')"
    using validate_table_required_keys(2)[of d name i] by blast
next
  assume "map_of d ''name'' = Some name \<and> map_of d ''columns'' = Some cols
      \<and> map_of d ''primary_key'' = None"
  then show "validate_table (PDict d) i
          = err (''Table '' @ quoted (py_str name) @ '' must have 'primary_key' field'')"
    using validate_table_required_keys(3)[of d name cols i] by blast
next
  assume "map_of d ''name'' = Some name \<and> map_of d ''columns'' = Some cols
      \<and> map_of d ''primary_key'' = Some pk \<and> \<not> nonempty_str name"
  then show "validate_table (PDict d) i
          = err (''Table name at index '' @ show_nat i @ '' must be a non-empty string'')"
    using validate_table_other_faults(1)[of d name cols pk i] by blast
next
  assume "map_of d ''name'' = Some (PStr n) \<and> n \<noteq> [] \<and> map_of d ''columns'' = Some cols
      \<and> map_of d ''primary_key'' = Some pk \<and> (\<forall>cs. cols \<noteq> PList cs)"
  then show "validate_table (PDict d) i = err (''Table '' @ quoted n @ '' columns must be a list'')"
    using validate_table_other_faults(2)[of d n cols pk i] by blast
next
  assume "table_with d n [] pk"
  then show "validate_table (PDict d) i
          = err (''Table '' @ quoted n @ '' must have at least one column'')"
    by (rule validate_table_other_faults(3))
next
  assume "table_with d n (cb @ c # ca) pk \<and> columns_pass n cb
      \<and> validate_column c n (length cb) = Inl e"
  then show "validate_table (PDict d) i = Inl e"
    using validate_table_bad_column[of d n cb c ca pk e i] by blast
next
  assume "table_with d n (cb @ c # ca) pk \<and> columns_pass n cb
      \<and> validate_column c n (length cb) = Inr () \<and> name_of c \<in> set (map name_of cb)"
  then show "validate_table (PDict d) i
          = err (''Duplicate column name '' @ quoted (py_str (name_of c)) @ '' in table ''
                 @ quoted n)"
    using validate_table_duplicate_column[of d n cb c ca pk i] by blast
next
  assume "table_with d n cs pk \<and> cs \<noteq> [] \<and> columns_pass n cs \<and> (\<forall>pks. pk \<noteq> PList pks)"
  then show "validate_table (PDict d) i
          = err (''Table '' @ quoted n @ '' primary_key must be a list'')"
    using validate_table_key_not_list[of d n cs pk i] by blast
next
  assume "table_with d n cs (PList (pb @ p # pa)) \<and> cs \<noteq> [] \<and> columns_pass n cs
      \<and> (\<forall>q \<in> set pb. q \<in> set (map name_of cs)) \<and> hashable p
      \<and> p \<notin> set (map name_of cs)"
  then show "validate_table (PDict d) i
          = err (''Primary key column '' @ quoted (py_str p) @ '' not found in table ''
                 @ quoted n)"
    using validate_table_missing_key_column[of d n cs pb p pa i] by blast
next
  assume "table_with d n cs (PList pks) \<and> cs \<noteq> [] \<and> columns_pass n cs
      \<and> (\<forall>q \<in> set pks. q \<in> set (map name_of cs))"
  then show "validate_table (PDict d) i = Inr ()"
    using validate_table_passes[of d n cs pks i] by blast
qed

text \<open>
  The witness: table \<open>a\<close>, whose foreign key is invalid, before table \<open>b\<close>, which has a
  duplicate column.  The duplicate column is reported; with \<open>b\<close> repaired, the foreign key
  of \<open>a\<close> is.  Table \<open>e\<close> is rejected for its missing key and not for its column, table
  \<open>c\<close> for its second column and not for its primary key, table \<open>d\<close> for the first
  entry of its primary key that names no column.
\<close>

theorem first_pass_before_second_pass_witness:
  "validate_table table_a 0 = Inr ()
   \<and> validate_table table_b 1
       = err (''Duplicate column name 'id' in table '' @ quoted ''b'')
   \<and> validate_schema (PDict [(''tables'', PList [table_a, table_b])])
       = err (''Duplicate column name 'id' in table '' @ quoted ''b'')
   \<and> validate_schema (PDict [(''tables'', PList [table_a, table_b_fixed])])
       = err (''Foreign key 'fk' in table 'a' references non-existent table '' @ quoted ''missing'')
   \<and> validate_table (PDict table_e) 0
       = err (''Table '' @ quoted ''e'' @ '' must have 'primary_key' field'')
   \<and> validate_table (PDict table_c) 0
       = err (''Column '' @ quoted ''x'' @ '' in table '' @ quoted ''c''
              @ '' must have 'type' field'')
   \<and> validate_table (PDict table_d) 0
       = err (''Primary key column '' @ quoted ''zz'' @ '' not found in table '' @ quoted ''d'')"
proof -
  have a: "validate_table table_a 0 = Inr ()"
    by code_simp
  have b: "validate_table table_b 1
       = err (''Duplicate column name 'id' in table '' @ quoted ''b'')"
    by code_simp
  have f: "validate_schema (PDict [(''tables'', PList [table_a, table_b_fixed])])
       = err (''Foreign key 'fk' in table 'a' references non-existent table '' @ quoted ''missing'')"
    by code_simp
  have m: "map_of [(''tables'', PList [table_a, table_b])] ''tables''
           = Some (PList ([table_a] @ table_b # []))"
    by simp
  have p: "\<forall>j < length [table_a]. validate_table ([table_a] ! j) j = Inr ()"
    using a by simp
  have s: "validate_schema (PDict [(''tables'', PList [table_a, table_b])])
        = err (''Duplicate column name 'id' in table '' @ quoted ''b'')"
    using first_pass_before_second_pass
            [where s = "[(''tables'', PList [table_a, table_b])]" and before = "[table_a]"
               and t = table_b and after = "[]"
               and e = "SchemaValidationError
                          (''Duplicate column name 'id' in table '' @ quoted ''b'')",
             THEN conjunct1]
          m p b
    by (simp add: err_def)
  have e1: "map_of table_e ''name'' = Some (PStr ''e'')
            \<and> map_of table_e ''columns'' = Some (PList [PInt 1])
            \<and> map_of table_e ''primary_key'' = None"
    by (simp add: table_e_def)
  from first_pass_before_second_pass
         [where d = table_e and name = "PStr ''e''" and cols = "PList [PInt 1]" and i = 0,
          THEN conjunct2, THEN conjunct2, THEN conjunct2, THEN conjunct2, THEN conjunct2, THEN conjunct1] e1
  have "validate_table (PDict table_e) 0
       = err (''Table '' @ quoted (py_str (PStr ''e'')) @ '' must have 'primary_key' field'')"
    by blast
  then have e: "validate_table (PDict table_e) 0
       = err (''Table '' @ quoted ''e'' @ '' must have 'primary_key' field'')"
    by (simp add: py_str_def)
  have c1: "table_with table_c ''c'' ([column_dict ''id'' ''INT''] @ PDict [(''name'', PStr ''x'')] # [])
              (PList [PStr ''zz''])"
    by (simp add: table_with_def table_c_def)
  have c2: "columns_pass ''c'' [column_dict ''id'' ''INT'']"
    by (simp add: columns_pass_def validate_column_def column_dict_def nonempty_str_def)
  have c3: "validate_column (PDict [(''name'', PStr ''x'')]) ''c'' (length [column_dict ''id'' ''INT''])
            = Inl (SchemaValidationError
                     (''Column '' @ quoted ''x'' @ '' in table '' @ quoted ''c''
                      @ '' must have 'type' field''))"
    by (simp add: validate_column_def err_def py_str_def)
  from first_pass_before_second_pass
         [where d = table_c and n = "''c''" and cb = "[column_dict ''id'' ''INT'']"
            and c = "PDict [(''name'', PStr ''x'')]" and ca = "[]" and pk = "PList [PStr ''zz'']"
            and e = "SchemaValidationError
                       (''Column '' @ quoted ''x'' @ '' in table '' @ quoted ''c''
                        @ '' must have 'type' field'')" and i = 0,
          THEN conjunct2, THEN conjunct2, THEN conjunct2, THEN conjunct2, THEN conjunct2, THEN conjunct2, THEN conjunct2, THEN conjunct2, THEN conjunct2, THEN conjunct1]
       c1 c2 c3
  have "validate_table (PDict table_c) 0
        = Inl (SchemaValidationError
                 (''Column '' @ quoted ''x'' @ '' in table '' @ quoted ''c''
                  @ '' must have 'type' field''))"
    by blast
  then have c: "validate_table (PDict table_c) 0
       = err (''Column '' @ quoted ''x'' @ '' in table '' @ quoted ''c''
              @ '' must have 'type' field'')"
    by (simp add: err_def)
  have d1: "table_with table_d ''d'' [column_dict ''id'' ''INT'', column_dict ''v'' ''TEXT'']
              (PList ([PStr ''id''] @ PStr ''zz'' # [PStr ''yy'']))"
    by (simp add: table_with_def table_d_def)
  have d2: "columns_pass ''d'' [column_dict ''id'' ''INT'', column_dict ''v'' ''TEXT'']"
  proof -
    have "validate_column (column_dict ''id'' ''INT'') ''d'' 0 = Inr ()"
         "validate_column (column_dict ''v'' ''TEXT'') ''d'' (Suc 0) = Inr ()"
      by (simp_all add: validate_column_def column_dict_def nonempty_str_def)
    moreover have "name_of (column_dict ''id'' ''INT'') \<noteq> name_of (column_dict ''v'' ''TEXT'')"
      by (simp add: name_of_def column_dict_def)
    ultimately show ?thesis
      by (simp add: columns_pass_def less_Suc_eq conj_disj_distribR all_conj_distrib)
  qed
  have d3: "[column_dict ''id'' ''INT'', column_dict ''v'' ''TEXT''] \<noteq> []
            \<and> (\<forall>q \<in> set [PStr ''id''].
                   q \<in> set (map name_of [column_dict ''id'' ''INT'', column_dict ''v'' ''TEXT'']))
            \<and> hashable (PStr ''zz'')
            \<and> PStr ''zz'' \<notin> set (map name_of [column_dict ''id'' ''INT'', column_dict ''v'' ''TEXT''])"
    by (simp add: name_of_def column_dict_def hashable_def)
  from first_pass_before_second_pass
         [where d = table_d and n = "''d''"
            and cs = "[column_dict ''id'' ''INT'', column_dict ''v'' ''TEXT'']"
            and pb = "[PStr ''id'']" and p = "PStr ''zz''" and pa = "[PStr ''yy'']" and i = 0,
          THEN conjunct2, THEN conjunct2, THEN conjunct2, THEN conjunct2, THEN conjunct2, THEN conjunct2, THEN conjunct2, THEN conjunct2, THEN conjunct2, THEN conjunct2, THEN conjunct2, THEN conjunct2, THEN conjunct1]
       d1 d2 d3
  have "validate_table (PDict table_d) 0
       = err (''Primary key column '' @ quoted (py_str (PStr ''zz'')) @ '' not found in table ''
              @ quoted ''d'')"
    by blast
  then have d: "validate_table (PDict table_d) 0
       = err (''Primary key column '' @ quoted ''zz'' @ '' not found in table '' @ quoted ''d'')"
    by (simp add: py_str_def)
  from a b s f e c d show ?thesis by (intro conjI)
qed

section \<open>C2: the body of the table\<close>

text \<open>
  Claim C2, as stated: the body is the text between the first opening parenthesis and the
  closing parenthesis that matches it.  It fails when a parenthesis follows the column
  list: the pattern is greedy and runs to the last closing parenthesis of the statement.
\<close>

theorem table_body_counterexample:
  "table_body ''CREATE TABLE t (a INT) WITH (x)'' = Some ''a INT) WITH (x''
   \<and> matched_body ''CREATE TABLE t (a INT) WITH (x)'' = Some ''a INT''"
  by code_simp

text \<open>
  Claim C2, amended: the body the parser extracts is the text between the first opening
  parenthesis of the statement and its last closing parenthesis; no body is extracted
  exactly when the statement has no opening parenthesis with a closing one after it.
\<close>

theorem table_body_first_open_last_close:
  "(CHR ''('' \<notin> set pre \<and> CHR '')'' \<notin> set post
      \<longrightarrow> table_body (pre @ ''('' @ body @ '')'' @ post) = Some body)
   \<and> (table_body s = None
        \<longleftrightarrow> \<not> (\<exists>pre body post. s = pre @ ''('' @ body @ '')'' @ post))"
  using table_body_first_last[of pre post body] table_body_None[of s] occurs_paren[of s]
  by blast

theorem table_body_first_open_last_close_witness:
  "table_body ''CREATE TABLE t (a INT, b VARCHAR(5));'' = Some ''a INT, b VARCHAR(5)''
   \<and> table_body ''CREATE TABLE t;'' = None"
proof -
  have "\<not> (\<exists>pre body post. ''CREATE TABLE t;'' = pre @ ''('' @ body @ '')'' @ post)"
  proof
    assume "\<exists>pre body post. ''CREATE TABLE t;'' = pre @ ''('' @ body @ '')'' @ post"
    then obtain pre body post where "''CREATE TABLE t;'' = pre @ ''('' @ body @ '')'' @ post"
      by blast
    then have "CHR ''('' \<in> set ''CREATE TABLE t;''"
      by (metis append_Cons in_set_conv_decomp)
    then show False by simp
  qed
  then show ?thesis
    using table_body_first_open_last_close [of "''CREATE TABLE t ''" "'';''"
        "''a INT, b VARCHAR(5)''" "''CREATE TABLE t;''"]
    by simp
qed

section \<open>C3: the primary key of a table\<close>

text \<open>
  Claim C3: the primary key of a parsed table is the concatenation, fragment by fragment
  in the order of the table body, of what each fragment adds: the quote-stripped column
  list of a standalone \<^verbatim>\<open>PRIMARY KEY\<close> clause, the names of the columns flagged as
  inline primary keys.  Every list of fragments has its list of contributions, and the
  primary key is their concatenation after what was there before; the columns of the table
  are those the fragments yield, in order.  Nothing is removed, so a name can occur twice
  and several standalone clauses accumulate.  The clause \<^verbatim>\<open>PRIMARY KEY (a, b)\<close> adds
  \<open>a\<close>, \<open>b\<close> in that order and nothing else.
\<close>

theorem primary_key_concatenation:
  "(\<exists>contributions. list_all2 adds_to_key fragments contributions)
   \<and> (list_all2 adds_to_key fragments contributions
        \<longrightarrow> primary_key (foldl parse_part acc fragments) = primary_key acc @ concat contributions)
   \<and> columns (foldl parse_part acc fragments)
       = columns acc @ concat (map (\<lambda>f. columns (parse_part no_clauses f)) fragments)
   \<and> (parse_create_table stmt = Some t \<and> table_body (stmt_str stmt) = Some body
        \<and> list_all2 adds_to_key (split_by_comma body) contributions
        \<longrightarrow> primary_key t = concat contributions)
   \<and> (parse_create_table stmt = Some t \<and> table_body (stmt_str stmt) = None
        \<longrightarrow> primary_key t = [])
   \<and> (adds_to_key ''PRIMARY KEY (a, b)'' names \<longleftrightarrow> names = [''a'', ''b''])"
proof (intro conjI impI)
  show "\<exists>contributions. list_all2 adds_to_key fragments contributions"
    unfolding list_all2_adds by blast
next
  assume "list_all2 adds_to_key fragments contributions"
  then show "primary_key (foldl parse_part acc fragments) = primary_key acc @ concat contributions"
    by (simp add: list_all2_adds foldl_parse_part_adds(1))
next
  show "columns (foldl parse_part acc fragments)
       = columns acc @ concat (map (\<lambda>f. columns (parse_part no_clauses f)) fragments)"
    by (rule foldl_parse_part_adds(2))
next
  assume a: "parse_create_table stmt = Some t \<and> table_body (stmt_str stmt) = Some body
        \<and> list_all2 adds_to_key (split_by_comma body) contributions"
  then have "primary_key t = primary_key (parse_body (stmt_str stmt))"
    by (auto simp: parse_create_table_def Let_def split: option.splits if_splits)
  also have "\<dots> = primary_key (foldl parse_part no_clauses (split_by_comma body))"
    using a by (simp add: parse_body_def)
  also have "\<dots> = concat contributions"
    using a by (simp add: list_all2_adds foldl_parse_part_adds(1) no_clauses_def)
  finally show "primary_key t = concat contributions" .
next
  assume a: "parse_create_table stmt = Some t \<and> table_body (stmt_str stmt) = None"
  then have "primary_key t = primary_key (parse_body (stmt_str stmt))"
    by (auto simp: parse_create_table_def Let_def split: option.splits if_splits)
  with a show "primary_key t = []"
    by (simp add: parse_body_def no_clauses_def)
next
  have "primary_key (parse_part no_clauses ''PRIMARY KEY (a, b)'') = [''a'', ''b'']"
    by code_simp
  then show "adds_to_key ''PRIMARY KEY (a, b)'' names \<longleftrightarrow> names = [''a'', ''b'']"
    by (simp add: adds_to_key_iff)
qed

text \<open>
  The witness: a quoted column with an inline primary key, a plain column, a standalone
  clause with quoted names and white space around them, and a second standalone clause in
  lower case.  The names come without their quoting, \<open>id\<close> and \<open>a\<close> twice each.  The
  statement with an inline and a standalone primary key has the key \<open>id\<close>, \<open>id\<close>,
  \<open>a\<close>; the statement without a body has none.
\<close>

theorem primary_key_concatenation_witness:
  "list_all2 adds_to_key
     [''[id] INT PRIMARY KEY'', '' a INT'', '' PRIMARY KEY ( [a] , [id] )'', '' primary   key(a)'']
     [[''id''], [], [''a'', ''id''], [''a'']]
   \<and> primary_key
       (foldl parse_part no_clauses
          [''[id] INT PRIMARY KEY'', '' a INT'', '' PRIMARY KEY ( [a] , [id] )'',
           '' primary   key(a)''])
       = [''id'', ''a'', ''id'', ''a'']
   \<and> table_body (stmt_str statement_with_keys)
       = Some ''[id] INT PRIMARY KEY, PRIMARY KEY ([id], a)''
   \<and> list_all2 adds_to_key (split_by_comma ''[id] INT PRIMARY KEY, PRIMARY KEY ([id], a)'')
       [[''id''], [''id'', ''a'']]
   \<and> (\<exists>t. parse_create_table statement_with_keys = Some t
          \<and> primary_key t = [''id'', ''id'', ''a''])
   \<and> table_body (stmt_str statement_without_body) = None
   \<and> (\<exists>t. parse_create_table statement_without_body = Some t \<and> primary_key t = [])"
proof -
  have "map (\<lambda>f. primary_key (parse_part no_clauses f))
          [''[id] INT PRIMARY KEY'', '' a INT'', '' PRIMARY KEY ( [a] , [id] )'',
           '' primary   key(a)'']
        = [[''id''], [], [''a'', ''id''], [''a'']]"
    by code_simp
  then have l: "list_all2 adds_to_key
     [''[id] INT PRIMARY KEY'', '' a INT'', '' PRIMARY KEY ( [a] , [id] )'', '' primary   key(a)'']
     [[''id''], [], [''a'', ''id''], [''a'']]"
    by (simp only: list_all2_adds)
  from primary_key_concatenation
         [where fragments = "[''[id] INT PRIMARY KEY'', '' a INT'',
                              '' PRIMARY KEY ( [a] , [id] )'', '' primary   key(a)'']"
            and contributions = "[[''id''], [], [''a'', ''id''], [''a'']]"
            and acc = no_clauses, THEN conjunct2, THEN conjunct1] l
  have "primary_key
       (foldl parse_part no_clauses
          [''[id] INT PRIMARY KEY'', '' a INT'', '' PRIMARY KEY ( [a] , [id] )'',
           '' primary   key(a)''])
       = primary_key no_clauses @ concat [[''id''], [], [''a'', ''id''], [''a'']]"
    by blast
  then have k: "primary_key
       (foldl parse_part no_clauses
          [''[id] INT PRIMARY KEY'', '' a INT'', '' PRIMARY KEY ( [a] , [id] )'',
           '' primary   key(a)''])
       = [''id'', ''a'', ''id'', ''a'']"
    by (simp add: no_clauses_def)
  have b: "table_body (stmt_str statement_with_keys)
           = Some ''[id] INT PRIMARY KEY, PRIMARY KEY ([id], a)''"
    by code_simp
  have "map (\<lambda>f. primary_key (parse_part no_clauses f))
          (split_by_comma ''[id] INT PRIMARY KEY, PRIMARY KEY ([id], a)'')
        = [[''id''], [''id'', ''a'']]"
    by code_simp
  then have l2: "list_all2 adds_to_key
       (split_by_comma ''[id] INT PRIMARY KEY, PRIMARY KEY ([id], a)'')
       [[''id''], [''id'', ''a'']]"
    by (simp only: list_all2_adds)
  have "parse_create_table statement_with_keys \<noteq> None"
    by code_simp
  then obtain t where t: "parse_create_table statement_with_keys = Some t"
    by blast
  from primary_key_concatenation
         [where stmt = statement_with_keys and t = t
            and body = "''[id] INT PRIMARY KEY, PRIMARY KEY ([id], a)''"
            and contributions = "[[''id''], [''id'', ''a'']]",
          THEN conjunct2, THEN conjunct2, THEN conjunct2, THEN conjunct1] t b l2
  have "primary_key t = concat [[''id''], [''id'', ''a'']]"
    by blast
  with t have w: "\<exists>t. parse_create_table statement_with_keys = Some t
          \<and> primary_key t = [''id'', ''id'', ''a'']"
    by simp
  have nb: "table_body (stmt_str statement_without_body) = None"
    by code_simp
  have "parse_create_table statement_without_body \<noteq> None"
    by code_simp
  then obtain u where u: "parse_create_table statement_without_body = Some u"
    by blast
  from primary_key_concatenation
         [where stmt = statement_without_body and t = u,
          THEN conjunct2, THEN conjunct2, THEN conjunct2, THEN conjunct2, THEN conjunct1] u nb
  have "primary_key u = []"
    by blast
  with u have n: "\<exists>t. parse_create_table statement_without_body = Some t \<and> primary_key t = []"
    by simp
  from l k b l2 w nb n show ?thesis by (intro conjI)
qed

section \<open>C4: the keys the AST builder requires\<close>

text \<open>
  Claim C4, as stated: the builder returns a schema for every raw record that has the
  name of each table and the name and type of each column.  It fails for a record with a
  foreign key that lacks one of its keys: the builder reads \<open>name\<close>, \<open>columns\<close>,
  \<open>ref_table\<close> and \<open>ref_columns\<close> of every foreign key by subscript, and a missing one
  raises \<^verbatim>\<open>KeyError\<close>.
\<close>

theorem builder_counterexample:
  "raw_record [] raw_without_fk_keys
   \<and> build raw_without_fk_keys = Inl (KeyError (PStr ''name''))"
proof -
  have "raw_record [] raw_without_fk_keys"
    by (simp add: raw_record_def raw_without_fk_keys_def entry_def table_record_def
          dicts_with_def has_keys_def column_dict_def)
  moreover have "build raw_without_fk_keys = Inl (KeyError (PStr ''name''))"
    by code_simp
  ultimately show ?thesis by (intro conjI)
qed

text \<open>
  Claim C4, amended: the builder fails with a \<^verbatim>\<open>KeyError\<close> only if a key it requires is
  absent: the \<open>name\<close> of a table, the \<open>name\<close> or \<open>type\<close> of a column, or the \<open>name\<close>,
  \<open>columns\<close>, \<open>ref_table\<close> or \<open>ref_columns\<close> of a foreign key.  For every raw record
  of the parser's shape in which those keys are all present it returns a schema.
\<close>

theorem builder_required_keys:
  "(build raw = Inl (KeyError k) \<longrightarrow> (\<exists>key. k = PStr key \<and> record_lacks key raw))
   \<and> (raw_record required_fields raw \<longrightarrow> (\<exists>s. build raw = Inr s))"
  using build_KeyError[of raw k] build_ok[of raw] by blast

text \<open>
  The witness: the record with the empty foreign key lacks \<open>name\<close> there; the tables
  \<open>users\<close> and \<open>orders\<close> have every key.
\<close>

theorem builder_required_keys_witness:
  "build raw_without_fk_keys = Inl (KeyError (PStr ''name''))
   \<and> record_lacks ''name'' raw_without_fk_keys
   \<and> raw_record required_fields
        (PDict [(''tables'', PList [table_users, table_orders ''user_id''])])
   \<and> (\<exists>s. build (PDict [(''tables'', PList [table_users, table_orders ''user_id''])]) = Inr s)"
proof -
  have b: "build raw_without_fk_keys = Inl (KeyError (PStr ''name''))"
    by code_simp
  have r: "raw_record required_fields
        (PDict [(''tables'', PList [table_users, table_orders ''user_id''])])"
    by (simp add: raw_record_def entry_def table_record_def dicts_with_def has_keys_def
          column_dict_def table_users_def table_orders_def fk_user_def required_fields_def)
  from builder_required_keys[of raw_without_fk_keys "PStr ''name''"] b
  have "record_lacks ''name'' raw_without_fk_keys" by blast
  moreover
  from builder_required_keys
         [of "PDict [(''tables'', PList [table_users, table_orders ''user_id''])]"] r
  have "\<exists>s. build (PDict [(''tables'', PList [table_users, table_orders ''user_id''])]) = Inr s"
    by blast
  ultimately show ?thesis using b r by (intro conjI)
qed

section \<open>C5: the name of a foreign key without a constraint name\<close>

text \<open>
  Claim C5: a fragment that parses as a foreign key and carries no explicit
  \<^verbatim>\<open>CONSTRAINT\<close> name gets the name \<^verbatim>\<open>fk_\<close>, the referenced table, an underscore,
  and the local columns joined by underscores.  The parser looks for the name with a search
  for \<^verbatim>\<open>CONSTRAINT\<close>, white space and a word anywhere in the fragment, in any case, also
  inside a longer word.  In \<^verbatim>\<open>FOREIGN KEY (a) REFERENCES my_constraint (id)\<close> the search
  succeeds at the end of the table name \<^verbatim>\<open>my_constraint\<close>: the foreign key is named
  \<^verbatim>\<open>(id)\<close>, and no name is made for it.  The clause loop hands the fragment to the
  foreign-key clause parser and keeps that name.
\<close>

theorem foreign_key_name_not_synthesized:
  "parse_foreign_key ''FOREIGN KEY (a) REFERENCES my_constraint (id)''
     = Some \<lparr>fk_name = ''(id)'', fk_columns = [''a''],
             ref_table = ''my_constraint'', ref_columns = [''id'']\<rparr>
   \<and> ''(id)'' \<noteq> ''fk_'' @ ''my_constraint'' @ ''_'' @ join ''_'' [''a'']
   \<and> foreign_keys
       (parse_part no_clauses '' FOREIGN KEY (a) REFERENCES my_constraint (id)'')
       = [\<lparr>fk_name = ''(id)'', fk_columns = [''a''],
           ref_table = ''my_constraint'', ref_columns = [''id'']\<rparr>]"
  by code_simp

text \<open>
  Where the search finds nothing, the name is the one the claim gives; the clause
  \<^verbatim>\<open>FOREIGN KEY (c) REFERENCES other(d)\<close> gets the name \<^verbatim>\<open>fk_other_c\<close>.
\<close>

lemma foreign_key_name_without_constraint_word:
  "(parse_foreign_key fd = Some fk \<and> \<not> contains_piece constraint_name fd
      \<longrightarrow> fk_name fk = ''fk_'' @ ref_table fk @ ''_'' @ join ''_'' (fk_columns fk))
   \<and> parse_foreign_key ''FOREIGN KEY (c) REFERENCES other(d)''
       = Some \<lparr>fk_name = ''fk_other_c'', fk_columns = [''c''],
               ref_table = ''other'', ref_columns = [''d'']\<rparr>"
proof (intro conjI impI)
  assume "parse_foreign_key fd = Some fk \<and> \<not> contains_piece constraint_name fd"
  then show "fk_name fk = ''fk_'' @ ref_table fk @ ''_'' @ join ''_'' (fk_columns fk)"
    using parse_foreign_key_unnamed[of fd fk] by blast
next
  show "parse_foreign_key ''FOREIGN KEY (c) REFERENCES other(d)''
       = Some \<lparr>fk_name = ''fk_other_c'', fk_columns = [''c''],
               ref_table = ''other'', ref_columns = [''d'']\<rparr>"
    by code_simp
qed

section \<open>C6: the column counts of a foreign key\<close>

text \<open>
  Claim C6, as stated: the validator rejects any foreign key whose two column lists differ
  in length with an error whose message contains \<^verbatim>\<open>mismatched column counts\<close>.  It
  fails when an earlier check of the foreign key fails: the validator stops at the first
  fault, and the comparison of the lengths is its last check.  Here the local column
  \<open>zz\<close> does not exist in \<open>orders\<close>, and that is what the message says.
\<close>

theorem mismatched_counts_counterexample:
  "validate_schema (PDict [(''tables'', PList [table_users, table_orders ''zz''])])
     = err (''Foreign key 'fk_user' references non-existent column 'zz' in table ''
            @ quoted ''orders'')
   \<and> \<not> is_substring ''mismatched column counts''
         (''Foreign key 'fk_user' references non-existent column 'zz' in table ''
          @ quoted ''orders'')"
  by code_simp

text \<open>
  Claim C6, amended: the foreign-key clause parser yields a record whenever the fragment
  holds a \<^verbatim>\<open>FOREIGN KEY ( ... )\<close> clause and a \<^verbatim>\<open>REFERENCES <table> ( ... )\<close> clause,
  whatever the numbers of columns in the two lists (one local column and two referenced
  ones give a record).  The validator rejects every schema that holds, in any table and at
  any place among its foreign keys, a foreign key whose \<open>columns\<close> and \<open>ref_columns\<close>
  lists differ in length.  When the tables pass the first pass, the foreign keys before it
  are valid and it passes the checks that come before the comparison of the lengths, the
  error is the one of that comparison, whose message contains
  \<^verbatim>\<open>mismatched column counts\<close>.  For such a foreign key of a table with a name, the
  check of the foreign key raises that error exactly when the foreign key passes the checks
  that come before; otherwise it raises another error.
\<close>

theorem arity_checked_by_validator:
  "(contains_piece foreign_key_clause fd \<and> contains_piece references_clause fd
      \<longrightarrow> parse_foreign_key fd \<noteq> None)
   \<and> parse_foreign_key ''FOREIGN KEY (a) REFERENCES t(x, y)''
       = Some \<lparr>fk_name = ''fk_t_a'', fk_columns = [''a''],
               ref_table = ''t'', ref_columns = [''x'', ''y'']\<rparr>
   \<and> (map_of s ''tables'' = Some (PList ts) \<and> PDict t \<in> set ts
        \<and> map_of t ''foreign_keys'' = Some (PList fs) \<and> PDict f \<in> set fs
        \<and> map_of f ''columns'' = Some (PList cs) \<and> map_of f ''ref_columns'' = Some (PList rs)
        \<and> length cs \<noteq> length rs
        \<longrightarrow> (\<exists>e. validate_schema (PDict s) = Inl e))
   \<and> (map_of s ''tables'' = Some (PList (tbefore @ PDict t # tafter))
        \<and> first_pass 0 (tbefore @ PDict t # tafter) ({}, Map.empty)
            = Inr (table_names, table_columns)
        \<and> (\<forall>tb \<in> set tbefore. validate_foreign_keys tb table_names table_columns = Inr ())
        \<and> map_of t ''foreign_keys'' = Some (PList (fbefore @ PDict f # fafter))
        \<and> (\<forall>j < length fbefore.
              validate_foreign_key (fbefore ! j) (PDict t) j table_names table_columns = Inr ())
        \<and> passes_earlier_checks f (PDict t) table_names table_columns tn nm cs rt rs
        \<and> length cs \<noteq> length rs
        \<longrightarrow> validate_schema (PDict s) = err (mismatch_message nm tn (length cs) (length rs)))
   \<and> (subscript table ''name'' = Inr (PStr tn)
        \<and> map_of f ''columns'' = Some (PList cs) \<and> map_of f ''ref_columns'' = Some (PList rs)
        \<and> length cs \<noteq> length rs
        \<longrightarrow> (\<exists>e. validate_foreign_key (PDict f) table i table_names table_columns = Inl e)
            \<and> ((\<exists>nm tn' m n. validate_foreign_key (PDict f) table i table_names table_columns
                                = err (mismatch_message nm tn' m n))
                 \<longleftrightarrow> (\<exists>nm rt. passes_earlier_checks f table table_names table_columns
                                  tn nm cs rt rs)))
   \<and> is_substring ''mismatched column counts'' (mismatch_message nm tn m n)"
proof (intro conjI impI)
  assume "contains_piece foreign_key_clause fd \<and> contains_piece references_clause fd"
  then show "parse_foreign_key fd \<noteq> None"
    by (simp add: parse_foreign_key_None)
next
  show "parse_foreign_key ''FOREIGN KEY (a) REFERENCES t(x, y)''
       = Some \<lparr>fk_name = ''fk_t_a'', fk_columns = [''a''],
               ref_table = ''t'', ref_columns = [''x'', ''y'']\<rparr>"
    by code_simp
next
  assume "map_of s ''tables'' = Some (PList ts) \<and> PDict t \<in> set ts
        \<and> map_of t ''foreign_keys'' = Some (PList fs) \<and> PDict f \<in> set fs
        \<and> map_of f ''columns'' = Some (PList cs) \<and> map_of f ''ref_columns'' = Some (PList rs)
        \<and> length cs \<noteq> length rs"
  then show "\<exists>e. validate_schema (PDict s) = Inl e"
    using validate_schema_rejects[of s ts t fs f cs rs] by blast
next
  assume "map_of s ''tables'' = Some (PList (tbefore @ PDict t # tafter))
        \<and> first_pass 0 (tbefore @ PDict t # tafter) ({}, Map.empty)
            = Inr (table_names, table_columns)
        \<and> (\<forall>tb \<in> set tbefore. validate_foreign_keys tb table_names table_columns = Inr ())
        \<and> map_of t ''foreign_keys'' = Some (PList (fbefore @ PDict f # fafter))
        \<and> (\<forall>j < length fbefore.
              validate_foreign_key (fbefore ! j) (PDict t) j table_names table_columns = Inr ())
        \<and> passes_earlier_checks f (PDict t) table_names table_columns tn nm cs rt rs
        \<and> length cs \<noteq> length rs"
  then show "validate_schema (PDict s) = err (mismatch_message nm tn (length cs) (length rs))"
    using validate_schema_mismatch
            [of s tbefore t tafter table_names table_columns fbefore f fafter tn nm cs rt rs]
    by blast
next
  assume a: "subscript table ''name'' = Inr (PStr tn)
        \<and> map_of f ''columns'' = Some (PList cs) \<and> map_of f ''ref_columns'' = Some (PList rs)
        \<and> length cs \<noteq> length rs"
  then show "\<exists>e. validate_foreign_key (PDict f) table i table_names table_columns = Inl e"
    using validate_foreign_key_rejects[of f cs rs table i table_names table_columns] by blast
  from a show "(\<exists>nm tn' m n. validate_foreign_key (PDict f) table i table_names table_columns
                                = err (mismatch_message nm tn' m n))
                 \<longleftrightarrow> (\<exists>nm rt. passes_earlier_checks f table table_names table_columns
                                  tn nm cs rt rs)"
    using mismatch_only_after_earlier_checks[of table tn f cs rs i table_names table_columns]
    by blast
next
  show "is_substring ''mismatched column counts'' (mismatch_message nm tn m n)"
    by (rule mismatch_message_contains)
qed

text \<open>
  The witness: \<open>users\<close> and \<open>orders\<close>, whose second foreign key has the local column
  \<open>user_id\<close>, which exists, and the two referenced columns \<open>id\<close> and \<open>name\<close> of
  \<open>users\<close>.  With the local column \<open>zz\<close>, which does not exist, the foreign key does
  not pass the earlier checks and the error is not that of the comparison.
\<close>

theorem arity_checked_by_validator_witness:
  "first_pass 0 [table_users, PDict orders_two] ({}, Map.empty)
     = Inr (recorded_names, recorded_columns)
   \<and> validate_foreign_keys table_users recorded_names recorded_columns = Inr ()
   \<and> validate_foreign_key (PDict fk_by_id) (PDict orders_two) 0 recorded_names recorded_columns
       = Inr ()
   \<and> passes_earlier_checks (fk_user ''user_id'') (PDict orders_two) recorded_names
       recorded_columns ''orders'' ''fk_user'' [PStr ''user_id''] ''users''
       [PStr ''id'', PStr ''name'']
   \<and> validate_schema (PDict [(''tables'', PList [table_users, PDict orders_two])])
       = err (mismatch_message ''fk_user'' ''orders'' 1 2)
   \<and> (\<exists>e. validate_schema (PDict [(''tables'', PList [table_users, PDict orders_two])]) = Inl e)
   \<and> \<not> (\<exists>nm rt. passes_earlier_checks (fk_user ''zz'') (table_orders ''zz'') recorded_names
                    recorded_columns ''orders'' nm [PStr ''zz''] rt [PStr ''id'', PStr ''name''])
   \<and> \<not> (\<exists>nm tn' m n.
          validate_foreign_key (PDict (fk_user ''zz'')) (table_orders ''zz'') 0 recorded_names
            recorded_columns
          = err (mismatch_message nm tn' m n))
   \<and> contains_piece foreign_key_clause ''FOREIGN KEY (a) REFERENCES t(x, y)''
   \<and> contains_piece references_clause ''FOREIGN KEY (a) REFERENCES t(x, y)''
   \<and> parse_foreign_key ''FOREIGN KEY (a) REFERENCES t(x, y)'' \<noteq> None"
proof -
  have fp: "first_pass 0 ([table_users] @ PDict orders_two # []) ({}, Map.empty)
            = Inr (recorded_names, recorded_columns)"
    using first_pass_users_orders by simp
  have vu: "validate_foreign_keys table_users recorded_names recorded_columns = Inr ()"
    by (simp add: validate_foreign_keys_def table_users_def contains_def and_then_def)
  have p1: "passes_earlier_checks fk_by_id (PDict orders_two) recorded_names recorded_columns
              ''orders'' ''fk_by_id'' [PStr ''user_id''] ''users'' [PStr ''id'']"
    by (simp add: passes_earlier_checks_def fk_by_id_def orders_two_def recorded_names_def
          recorded_columns_def subscript_def hashable_def)
  have vf: "validate_foreign_key (PDict fk_by_id) (PDict orders_two) 0 recorded_names
              recorded_columns = Inr ()"
    using p1 unfolding passes_earlier_checks_def validate_foreign_key_def
    by (auto simp: and_then_def subscript_def nonempty_str_def columns_of_def element_of_def
          required_fields_def fk_by_id_def hashable_def)
  have p: "passes_earlier_checks (fk_user ''user_id'') (PDict orders_two) recorded_names
       recorded_columns ''orders'' ''fk_user'' [PStr ''user_id''] ''users''
       [PStr ''id'', PStr ''name'']"
    by (simp add: passes_earlier_checks_def fk_user_def orders_two_def recorded_names_def
          recorded_columns_def subscript_def hashable_def)
  have l: "length [PStr ''user_id''] \<noteq> length [PStr ''id'', PStr ''name'']"
      "length [PStr ''user_id''] = 1" "length [PStr ''id'', PStr ''name''] = 2"
    by simp_all
  have m: "map_of [(''tables'', PList [table_users, PDict orders_two])] ''tables''
           = Some (PList ([table_users] @ PDict orders_two # []))"
    by simp
  have fk: "map_of orders_two ''foreign_keys''
            = Some (PList ([PDict fk_by_id] @ PDict (fk_user ''user_id'') # []))"
    by (simp add: orders_two_def)
  have b1: "\<forall>tb \<in> set [table_users].
              validate_foreign_keys tb recorded_names recorded_columns = Inr ()"
    using vu by simp
  have b2: "\<forall>j < length [PDict fk_by_id].
              validate_foreign_key ([PDict fk_by_id] ! j) (PDict orders_two) j recorded_names
                recorded_columns = Inr ()"
    using vf by simp
  from arity_checked_by_validator
         [where s = "[(''tables'', PList [table_users, PDict orders_two])]"
            and tbefore = "[table_users]" and t = orders_two and tafter = "[]"
            and table_names = recorded_names and table_columns = recorded_columns
            and fbefore = "[PDict fk_by_id]" and f = "fk_user ''user_id''" and fafter = "[]"
            and tn = "''orders''" and nm = "''fk_user''" and cs = "[PStr ''user_id'']"
            and rt = "''users''" and rs = "[PStr ''id'', PStr ''name'']"]
       m fp b1 fk b2 p l(1)
  have "validate_schema (PDict [(''tables'', PList [table_users, PDict orders_two])])
       = err (mismatch_message ''fk_user'' ''orders'' (length [PStr ''user_id''])
                (length [PStr ''id'', PStr ''name'']))"
    by blast
  then have v: "validate_schema (PDict [(''tables'', PList [table_users, PDict orders_two])])
       = err (mismatch_message ''fk_user'' ''orders'' 1 2)"
    unfolding l(2,3) .
  then have e: "\<exists>e. validate_schema (PDict [(''tables'', PList [table_users, PDict orders_two])])
                     = Inl e"
    by (simp add: err_def)
  have n: "\<not> (\<exists>nm rt. passes_earlier_checks (fk_user ''zz'') (table_orders ''zz'') recorded_names
                    recorded_columns ''orders'' nm [PStr ''zz''] rt [PStr ''id'', PStr ''name''])"
    by (simp add: passes_earlier_checks_def fk_user_def table_orders_def recorded_columns_def)
  have z: "subscript (table_orders ''zz'') ''name'' = Inr (PStr ''orders'')"
      "map_of (fk_user ''zz'') ''columns'' = Some (PList [PStr ''zz''])"
      "map_of (fk_user ''zz'') ''ref_columns'' = Some (PList [PStr ''id'', PStr ''name''])"
      "length [PStr ''zz''] \<noteq> length [PStr ''id'', PStr ''name'']"
    by (simp_all add: table_orders_def fk_user_def subscript_def)
  from arity_checked_by_validator
         [where table = "table_orders ''zz''" and tn = "''orders''" and f = "fk_user ''zz''"
            and cs = "[PStr ''zz'']" and rs = "[PStr ''id'', PStr ''name'']" and i = 0
            and table_names = recorded_names and table_columns = recorded_columns]
       z n
  have nz: "\<not> (\<exists>nm tn' m n.
          validate_foreign_key (PDict (fk_user ''zz'')) (table_orders ''zz'') 0 recorded_names
            recorded_columns
          = err (mismatch_message nm tn' m n))"
    by blast
  have "re_search rx_foreign_key_cols ''FOREIGN KEY (a) REFERENCES t(x, y)'' \<noteq> None"
       "re_search rx_references ''FOREIGN KEY (a) REFERENCES t(x, y)'' \<noteq> None"
    by code_simp+
  then have c: "contains_piece foreign_key_clause ''FOREIGN KEY (a) REFERENCES t(x, y)''"
      "contains_piece references_clause ''FOREIGN KEY (a) REFERENCES t(x, y)''"
    using re_search_iff[of rx_foreign_key_cols "''FOREIGN KEY (a) REFERENCES t(x, y)''"]
      re_search_iff[of rx_references "''FOREIGN KEY (a) REFERENCES t(x, y)''"]
    by (simp_all add: occurs_foreign_key_cols occurs_references)
  from arity_checked_by_validator
         [where fd = "''FOREIGN KEY (a) REFERENCES t(x, y)''", THEN conjunct1] c
  have pf: "parse_foreign_key ''FOREIGN KEY (a) REFERENCES t(x, y)'' \<noteq> None"
    by blast
  from first_pass_users_orders vu vf p v e n nz c pf show ?thesis by (intro conjI)
qed

section \<open>C7: the top-level comma splitter\<close>

text \<open>
  Claim C7, as stated: for every text the splitter returns the substrings delimited by the
  commas at depth zero, that is \<open>pieces\<close>.  It fails for a text with a top-level comma
  after which nothing follows: the splitter leaves the empty last substring out, while it
  keeps an empty substring anywhere else.
\<close>

theorem split_by_comma_counterexample:
  "split_by_comma ''a,,b,'' = [''a'', [], ''b''] \<and> pieces ''a,,b,'' = [''a'', [], ''b'', []]"
  by code_simp

text \<open>
  Claim C7, amended: for every text the splitter returns, in order, the substrings
  delimited by the commas before which as many parentheses were opened as closed, except
  that an empty last substring is left out.  A comma at any other depth (inside
  parentheses, or after more closing than opening ones) is no split point, and a text whose
  parentheses do not balance is split all the same.
\<close>

theorem split_by_comma_pieces:
  "split_by_comma s = (if last (pieces s) = [] then butlast (pieces s) else pieces s)"
  using split_by_comma_segs[of s] by (simp add: segs_pieces)

section \<open>C8: a foreign-key fragment that does not parse\<close>

text \<open>
  Claim C8: when a fragment contains no \<^verbatim>\<open>FOREIGN KEY ( ... )\<close> clause, or no
  \<^verbatim>\<open>REFERENCES <table> ( ... )\<close> clause, the foreign-key clause parser yields nothing.
  The parser has no error to raise: the clause loop, handed such a fragment, leaves the
  lists of the table as they were and goes on, so the table is the one the other
  fragments give.
\<close>

theorem foreign_key_fragment_dropped:
  "(\<not> contains_piece foreign_key_clause fd \<or> \<not> contains_piece references_clause fd
      \<longrightarrow> parse_foreign_key fd = None)
   \<and> (handed_to_foreign_key_parser (strip part)
       \<and> (\<not> contains_piece foreign_key_clause (strip part)
           \<or> \<not> contains_piece references_clause (strip part))
      \<longrightarrow> parse_part acc part = acc
          \<and> foldl parse_part acc (before @ part # after) = foldl parse_part acc (before @ after))"
proof (intro conjI impI)
  assume "\<not> contains_piece foreign_key_clause fd \<or> \<not> contains_piece references_clause fd"
  then show "parse_foreign_key fd = None"
    by (simp add: parse_foreign_key_None)
next
  assume a: "handed_to_foreign_key_parser (strip part)
       \<and> (\<not> contains_piece foreign_key_clause (strip part)
           \<or> \<not> contains_piece references_clause (strip part))"
  then have n: "parse_foreign_key (strip part) = None"
    by (simp add: parse_foreign_key_None)
  from a have h: "re_match rx_primary_key (strip part) = None"
      "re_match rx_foreign_key (strip part) \<noteq> None \<or> re_match rx_constraint (strip part) \<noteq> None"
    by (simp_all add: handed_to_foreign_key_parser_iff)
  have skip: "parse_part acc' part = acc'" for acc'
    using h n by (rule parse_part_skip)
  show "parse_part acc part = acc" by (rule skip)
  show "foldl parse_part acc (before @ part # after) = foldl parse_part acc (before @ after)"
    by (simp add: skip)
qed

text \<open>
  The witness: a \<^verbatim>\<open>FOREIGN KEY\<close> clause without \<^verbatim>\<open>REFERENCES\<close> between two columns.
\<close>

theorem foreign_key_fragment_dropped_witness:
  "parse_foreign_key ''FOREIGN KEY (a)'' = None
   \<and> handed_to_foreign_key_parser (strip '' FOREIGN KEY (a)'')
   \<and> \<not> contains_piece references_clause (strip '' FOREIGN KEY (a)'')
   \<and> foldl parse_part no_clauses ([''a INT''] @ '' FOREIGN KEY (a)'' # ['' b INT''])
       = foldl parse_part no_clauses ([''a INT''] @ ['' b INT''])"
proof -
  have s: "strip '' FOREIGN KEY (a)'' = ''FOREIGN KEY (a)''"
    by code_simp
  have "re_search rx_references ''FOREIGN KEY (a)'' = None"
    by code_simp
  then have r: "\<not> contains_piece references_clause ''FOREIGN KEY (a)''"
    using re_search_iff[of rx_references "''FOREIGN KEY (a)''"]
    by (simp add: occurs_references)
  have "re_match rx_primary_key ''FOREIGN KEY (a)'' = None
        \<and> re_match rx_foreign_key ''FOREIGN KEY (a)'' \<noteq> None"
    by code_simp
  then have h: "handed_to_foreign_key_parser ''FOREIGN KEY (a)''"
    by (simp add: handed_to_foreign_key_parser_iff)
  from foreign_key_fragment_dropped
         [of "''FOREIGN KEY (a)''" "'' FOREIGN KEY (a)''" no_clauses "[''a INT'']" "['' b INT'']"]
       s r h
  show ?thesis by simp
qed

section \<open>C9: the remainder of a column definition\<close>

text \<open>
  Claim C9: for a column definition with a third piece \<open>r\<close> (the text after the first
  two words and the white space that follows them), the column is marked as an
  inline primary key exactly when \<open>r\<close> contains \<^verbatim>\<open>PRIMARY KEY\<close> (in any case, with any
  white space between the two words).  The constraints of the column are what is left of
  \<open>r\<close> once its phrases are removed and the rest is trimmed: there is such a text, every
  such text gives the constraints, and when it is empty there are no constraints, never
  the empty text.
\<close>

theorem column_remainder:
  assumes "third_piece cd r"
  shows "\<exists>c. parse_column_definition cd = Some c
           \<and> (is_primary_key c \<longleftrightarrow> contains_piece primary_key_phrase r)
           \<and> (\<exists>kept rest. phrases_removed r kept \<and> trimmed kept rest)
           \<and> (\<forall>kept rest. phrases_removed r kept \<and> trimmed kept rest
                 \<longrightarrow> constraints c = (if rest = [] then None else Some rest))
           \<and> constraints c \<noteq> Some []"
proof -
  obtain n t where "split_ws 2 cd = [n, t, r]"
    using third_piece_split[OF assms] by blast
  then obtain c where c: "parse_column_definition cd = Some c"
      "is_primary_key c \<longleftrightarrow> contains_piece primary_key_phrase r"
      "constraints c = (if strip (re_sub rx_primary_key r) = [] then None
                        else Some (strip (re_sub rx_primary_key r)))"
    using constraints_of_remainder by blast
  have e: "phrases_removed r (re_sub rx_primary_key r)
           \<and> trimmed (re_sub rx_primary_key r) (strip (re_sub rx_primary_key r))"
    by (simp add: phrases_removed_iff strip_trimmed)
  have u: "constraints c = (if rest = [] then None else Some rest)"
    if "phrases_removed r kept \<and> trimmed kept rest" for kept rest
    using that c(3) by (simp add: phrases_removed_iff strip_trimmed)
  have "constraints c \<noteq> Some []" using c(3) by simp
  with c(1,2) e u show ?thesis by blast
qed

text \<open>
  The witness: in \<^verbatim>\<open>id INTEGER Primary   Key NOT NULL\<close>, followed by two blanks, the
  remainder begins with the phrase and ends with white space; the constraints are
  \<^verbatim>\<open>NOT NULL\<close>.
\<close>

theorem column_remainder_witness:
  "third_piece ''id INTEGER Primary   Key NOT NULL  '' ''Primary   Key NOT NULL  ''
   \<and> contains_piece primary_key_phrase ''Primary   Key NOT NULL  ''
   \<and> phrases_removed ''Primary   Key NOT NULL  '' '' NOT NULL  ''
   \<and> trimmed '' NOT NULL  '' ''NOT NULL''
   \<and> (\<exists>c. parse_column_definition ''id INTEGER Primary   Key NOT NULL  '' = Some c
          \<and> is_primary_key c \<and> constraints c = Some ''NOT NULL'')
   \<and> parse_column_definition ''id INTEGER Primary   Key NOT NULL  ''
       = Some \<lparr>col_name = ''id'', col_type = codes ''INTEGER'',
               constraints = Some ''NOT NULL'', is_primary_key = True\<rparr>"
proof -
  have "split_ws 2 ''id INTEGER Primary   Key NOT NULL  ''
     = [''id'', ''INTEGER'', ''Primary   Key NOT NULL  '']"
    by code_simp
  then have s: "third_piece ''id INTEGER Primary   Key NOT NULL  '' ''Primary   Key NOT NULL  ''"
    unfolding third_piece_iff by blast
  have "re_search rx_primary_key ''Primary   Key NOT NULL  '' \<noteq> None"
    by code_simp
  then have p: "contains_piece primary_key_phrase ''Primary   Key NOT NULL  ''"
    using re_search_iff[of rx_primary_key "''Primary   Key NOT NULL  ''"]
    by (simp add: occurs_primary_key)
  have "re_sub rx_primary_key ''Primary   Key NOT NULL  '' = '' NOT NULL  ''"
    by code_simp
  then have k: "phrases_removed ''Primary   Key NOT NULL  '' '' NOT NULL  ''"
    using re_sub_phrases_removed[of "''Primary   Key NOT NULL  ''"] by simp
  have "strip '' NOT NULL  '' = ''NOT NULL''"
    by code_simp
  then have t: "trimmed '' NOT NULL  '' ''NOT NULL''"
    by (simp add: strip_trimmed)
  have v: "parse_column_definition ''id INTEGER Primary   Key NOT NULL  ''
       = Some \<lparr>col_name = ''id'', col_type = codes ''INTEGER'',
               constraints = Some ''NOT NULL'', is_primary_key = True\<rparr>"
    by code_simp
  from column_remainder[OF s] obtain c where
      c: "parse_column_definition ''id INTEGER Primary   Key NOT NULL  '' = Some c"
      "is_primary_key c \<longleftrightarrow> contains_piece primary_key_phrase ''Primary   Key NOT NULL  ''"
      "\<forall>kept rest. phrases_removed ''Primary   Key NOT NULL  '' kept \<and> trimmed kept rest
                 \<longrightarrow> constraints c = (if rest = [] then None else Some rest)"
    by blast
  from c(3) k t have "constraints c = (if ''NOT NULL'' = [] then None else Some ''NOT NULL'')"
    by blast
  then have "constraints c = Some ''NOT NULL''" by simp
  with c(1,2) p have
    "\<exists>c. parse_column_definition ''id INTEGER Primary   Key NOT NULL  '' = Some c
          \<and> is_primary_key c \<and> constraints c = Some ''NOT NULL''"
    by blast
  with s p k t v show ?thesis by (intro conjI)
qed

section \<open>C10: when a statement yields no table\<close>

text \<open>
  Claim C10, as stated: parsing a statement yields nothing if and only if no table name is
  found.  It fails for a statement whose name token holds quoting characters only: the
  name is found, it is empty once the quoting is stripped, and the parser returns nothing
  for an empty name as it does for none.  The statement here is
  \<^verbatim>\<open>CREATE TABLE `` (a INT)\<close>.
\<close>

theorem create_table_counterexample:
  "find_table_name False
       [tok DDL ''CREATE'', space_tok, tok Keyword ''TABLE'', space_tok,
        tok Name [CHR 0x60, CHR 0x60], space_tok, tok Other ''('', tok Name ''a'', space_tok,
        tok Other ''INT'', tok Other '')''] = Some []
   \<and> parse_create_table
       [tok DDL ''CREATE'', space_tok, tok Keyword ''TABLE'', space_tok,
        tok Name [CHR 0x60, CHR 0x60], space_tok, tok Other ''('', tok Name ''a'', space_tok,
        tok Other ''INT'', tok Other '')''] = None"
  by code_simp

text \<open>
  Claim C10, amended: parsing a statement yields nothing if and only if no table name is
  found or the name found is empty once its quoting characters are stripped.  A statement
  with a name that is not empty and no parenthesized body is not skipped: it yields a table
  of that name with no columns, no primary key and no foreign keys; the validator rejects
  the dictionary of that table for having no column.
\<close>

theorem create_table_skipped_iff:
  "(parse_create_table stmt = None
      \<longleftrightarrow> find_table_name False stmt = None \<or> find_table_name False stmt = Some [])
   \<and> (find_table_name False stmt = Some n \<and> n \<noteq> [] \<and> table_body (stmt_str stmt) = None
        \<longrightarrow> parse_create_table stmt
              = Some \<lparr>columns = [], primary_key = [], foreign_keys = [], tbl_name = n\<rparr>
            \<and> map_option validate_schema
                (dict_of_tables
                   [\<lparr>columns = [], primary_key = [], foreign_keys = [], tbl_name = n\<rparr>])
              = Some (err (''Table '' @ quoted n @ '' must have at least one column'')))"
  using parse_create_table_None[of stmt] parse_create_table_no_body[of stmt n]
    validate_schema_no_columns[of n]
  by blast

text \<open>The witness: \<^verbatim>\<open>CREATE TABLE t;\<close> has a name and no body.\<close>

theorem create_table_skipped_iff_witness:
  "find_table_name False
       [tok DDL ''CREATE'', space_tok, tok Keyword ''TABLE'', space_tok, tok Name ''t'',
        tok Other '';''] = Some ''t''
   \<and> table_body
       (stmt_str [tok DDL ''CREATE'', space_tok, tok Keyword ''TABLE'', space_tok, tok Name ''t'',
                  tok Other '';'']) = None
   \<and> parse_create_table
       [tok DDL ''CREATE'', space_tok, tok Keyword ''TABLE'', space_tok, tok Name ''t'',
        tok Other '';'']
       = Some \<lparr>columns = [], primary_key = [], foreign_keys = [], tbl_name = ''t''\<rparr>
   \<and> map_option validate_schema
       (dict_of_tables [\<lparr>columns = [], primary_key = [], foreign_keys = [], tbl_name = ''t''\<rparr>])
       = Some (Inl (SchemaValidationError ''Table 't' must have at least one column''))"
proof -
  have f: "find_table_name False
       [tok DDL ''CREATE'', space_tok, tok Keyword ''TABLE'', space_tok, tok Name ''t'',
        tok Other '';''] = Some ''t''"
    by code_simp
  have b: "table_body
       (stmt_str [tok DDL ''CREATE'', space_tok, tok Keyword ''TABLE'', space_tok, tok Name ''t'',
                  tok Other '';'']) = None"
    by code_simp
  have m: "err (''Table '' @ quoted ''t'' @ '' must have at least one column'')
           = (Inl (SchemaValidationError ''Table 't' must have at least one column'')
              :: error + bool)"
    by (simp add: err_def quoted_def sq_def)
  have n: "''t'' \<noteq> []" by simp
  from create_table_skipped_iff
         [of "[tok DDL ''CREATE'', space_tok, tok Keyword ''TABLE'', space_tok, tok Name ''t'',
               tok Other '';'']" "''t''"] f b n
  have r: "parse_create_table
       [tok DDL ''CREATE'', space_tok, tok Keyword ''TABLE'', space_tok, tok Name ''t'',
        tok Other '';'']
       = Some \<lparr>columns = [], primary_key = [], foreign_keys = [], tbl_name = ''t''\<rparr>"
    and v: "map_option validate_schema
       (dict_of_tables [\<lparr>columns = [], primary_key = [], foreign_keys = [], tbl_name = ''t''\<rparr>])
       = Some (err (''Table '' @ quoted ''t'' @ '' must have at least one column''))"
    by blast+
  from v have "map_option validate_schema
       (dict_of_tables [\<lparr>columns = [], primary_key = [], foreign_keys = [], tbl_name = ''t''\<rparr>])
       = Some (Inl (SchemaValidationError ''Table 't' must have at least one column''))"
    by (simp only: m)
  with f b r show ?thesis by (intro conjI)
qed

end
